theory Spec2Isabelle
  imports Complex_Main "HOL-Library.Code_Target_Numeral"
begin

section \<open>Python text and decimal numerals\<close>

text \<open>
  A Python \<open>str\<close> is a sequence of Unicode code points, and \<open>len\<close> counts code points,
  not bytes. Text is therefore modelled as a list of code points (natural numbers); ASCII
  literals of the scripts are written through \<open>of_char\<close>.
\<close>

type_synonym pystr = "nat list"

definition lit :: "string \<Rightarrow> pystr" where
  "lit s = map of_char s"

text \<open>The number of bytes of one code point, and of a text, in UTF-8.\<close>

definition utf8_len_cp :: "nat \<Rightarrow> nat" where
  "utf8_len_cp c = (if c < 128 then 1 else if c < 2048 then 2 else if c < 65536 then 3 else 4)"

definition utf8_len :: "pystr \<Rightarrow> nat" where
  "utf8_len s = sum_list (map utf8_len_cp s)"

text \<open>\<open>str(n)\<close> for a non-negative integer: its decimal digits, most significant first.\<close>

fun dec_rev :: "nat \<Rightarrow> pystr" where
  "dec_rev n = (if n < 10 then [48 + n] else (48 + n mod 10) # dec_rev (n div 10))"

declare dec_rev.simps [simp del]

definition str_nat :: "nat \<Rightarrow> pystr" where
  "str_nat n = rev (dec_rev n)"

text \<open>\<open>str(i)\<close> for a Python \<open>int\<close>.\<close>

definition str_int :: "int \<Rightarrow> pystr" where
  "str_int i = (if i < 0 then 45 # str_nat (nat (- i)) else str_nat (nat i))"

text \<open>
  The decimal digits. In a Python 3 \<open>str\<close> pattern \<open>\d\<close> matches every Unicode decimal
  digit, and \<open>int\<close> reads them all. The ASCII part of that table is fixed here; the part
  beyond ASCII belongs to the interpreter's Unicode database and is the parameter \<open>nd\<close>
  (code point to digit value).
\<close>

definition digit_val :: "(nat \<Rightarrow> nat option) \<Rightarrow> nat \<Rightarrow> nat option" where
  "digit_val nd c =
     (if c < 128 then (if 48 \<le> c \<and> c \<le> 57 then Some (c - 48) else None) else nd c)"

definition is_digit :: "(nat \<Rightarrow> nat option) \<Rightarrow> nat \<Rightarrow> bool" where
  "is_digit nd c = (digit_val nd c \<noteq> None)"

text \<open>\<open>int(s)\<close> on a non-empty run of decimal digits.\<close>

definition int_of_digits :: "(nat \<Rightarrow> nat option) \<Rightarrow> pystr \<Rightarrow> nat" where
  "int_of_digits nd ds =
     foldl (\<lambda>a c. 10 * a + (case digit_val nd c of Some d \<Rightarrow> d | None \<Rightarrow> 0)) 0 ds"

section \<open>JSON values and \<open>json.dumps\<close>\<close>

text \<open>
  The values a message is built from: \<open>None\<close>, booleans, integers, strings, lists and
  dictionaries with string keys. A dictionary is the list of its items in insertion order,
  which is the order \<open>json.dumps\<close> prints them in. A float is kept only as the literal it
  was read from (\<open>JFloat\<close>): float arithmetic, rounding and \<open>repr\<close> are outside this model,
  and the statements about \<open>json_dumps\<close> are about float-free values.
\<close>

datatype json =
    JNull
  | JBool bool
  | JInt int
  | JFloat pystr
  | JStr pystr
  | JList "json list"
  | JDict "(pystr \<times> json) list"

text \<open>Four lower-case hexadecimal digits, as \<open>'{0:04x}'.format(n)\<close> prints \<open>n < 65536\<close>.\<close>

definition hex_digit :: "nat \<Rightarrow> nat" where
  "hex_digit d = (if d < 10 then 48 + d else 87 + d)"

definition hex4 :: "nat \<Rightarrow> pystr" where
  "hex4 n = [hex_digit (n div 4096 mod 16), hex_digit (n div 256 mod 16),
             hex_digit (n div 16 mod 16), hex_digit (n mod 16)]"

definition u_escape :: "nat \<Rightarrow> pystr" where
  "u_escape n = [92, 117] @ hex4 n"

text \<open>
  The replacement of one code point by \<open>json.dumps\<close> with its default \<open>ensure_ascii=True\<close>:
  printable ASCII other than the quote and the backslash stays, everything else is escaped,
  code points beyond the basic plane as a surrogate pair.
\<close>

definition escape_cp :: "nat \<Rightarrow> pystr" where
  "escape_cp c =
     (if c = 34 then [92, 34]
      else if c = 92 then [92, 92]
      else if 32 \<le> c \<and> c \<le> 126 then [c]
      else if c = 10 then [92, 110]
      else if c = 13 then [92, 114]
      else if c = 9 then [92, 116]
      else if c = 12 then [92, 102]
      else if c = 8 then [92, 98]
      else if c < 65536 then u_escape c
      else u_escape (55296 + (c - 65536) div 1024 mod 1024) @
           u_escape (56320 + (c - 65536) mod 1024))"

definition dumps_str :: "pystr \<Rightarrow> pystr" where
  "dumps_str s = [34] @ concat (map escape_cp s) @ [34]"

text \<open>\<open>', '.join(xs)\<close>.\<close>

fun join_comma :: "pystr list \<Rightarrow> pystr" where
  "join_comma [] = []"
| "join_comma [x] = x"
| "join_comma (x # y # ys) = x @ [44, 32] @ join_comma (y # ys)"

fun json_dumps :: "json \<Rightarrow> pystr" where
  "json_dumps JNull = lit ''null''"
| "json_dumps (JBool b) = (if b then lit ''true'' else lit ''false'')"
| "json_dumps (JInt i) = str_int i"
| "json_dumps (JFloat t) = t"
| "json_dumps (JStr s) = dumps_str s"
| "json_dumps (JList xs) = [91] @ join_comma (map json_dumps xs) @ [93]"
| "json_dumps (JDict kvs) =
     [123] @ join_comma (map (\<lambda>(k, v). dumps_str k @ [58, 32] @ json_dumps v) kvs) @ [125]"


section \<open>\<open>json.loads\<close>\<close>

text \<open>
  The decoder follows the scanner of the \<open>json\<close> module: white space is blank, tab, line
  feed and carriage return; strings are read in strict mode (no raw control characters);
  an escaped high surrogate directly followed by an escaped low surrogate is joined into one
  code point; a number with a fraction or an exponent, and the constants \<open>NaN\<close>,
  \<open>Infinity\<close> and \<open>-Infinity\<close>, are floats. \<open>None\<close> stands for the exception
  \<open>JSONDecodeError\<close>. The interpreter's recursion limit is not modelled.
\<close>

definition is_ws :: "nat \<Rightarrow> bool" where
  "is_ws c = (c = 32 \<or> c = 9 \<or> c = 10 \<or> c = 13)"

definition skip_ws :: "pystr \<Rightarrow> pystr" where
  "skip_ws s = dropWhile is_ws s"

definition hex_val :: "nat \<Rightarrow> nat option" where
  "hex_val c =
     (if 48 \<le> c \<and> c \<le> 57 then Some (c - 48)
      else if 97 \<le> c \<and> c \<le> 102 then Some (c - 87)
      else if 65 \<le> c \<and> c \<le> 70 then Some (c - 55)
      else None)"

fun parse_hex4 :: "pystr \<Rightarrow> (nat \<times> pystr) option" where
  "parse_hex4 (a # b # c # d # r) =
     (case hex_val a of None \<Rightarrow> None | Some x \<Rightarrow>
       (case hex_val b of None \<Rightarrow> None | Some y \<Rightarrow>
         (case hex_val c of None \<Rightarrow> None | Some z \<Rightarrow>
           (case hex_val d of None \<Rightarrow> None | Some w \<Rightarrow>
              Some (((x * 16 + y) * 16 + z) * 16 + w, r)))))"
| "parse_hex4 _ = None"

definition is_high_surrogate :: "nat \<Rightarrow> bool" where
  "is_high_surrogate c = (55296 \<le> c \<and> c \<le> 56319)"

definition is_low_surrogate :: "nat \<Rightarrow> bool" where
  "is_low_surrogate c = (56320 \<le> c \<and> c \<le> 57343)"

text \<open>
  What follows \<open>\u\<close> in a string: four hexadecimal digits; after a high surrogate, when at
  least seven more characters remain and the next two are \<open>\u\<close>, four more digits, which
  are joined to it if they are a low surrogate and left unread otherwise.
\<close>

definition parse_u :: "pystr \<Rightarrow> (nat \<times> pystr) option" where
  "parse_u s =
     (case parse_hex4 s of
        None \<Rightarrow> None
      | Some (c, r) \<Rightarrow>
          if is_high_surrogate c \<and> 6 < length r \<and> take 2 r = [92, 117] then
            (case parse_hex4 (drop 2 r) of
               None \<Rightarrow> None
             | Some (c2, r2) \<Rightarrow>
                 if is_low_surrogate c2
                 then Some (65536 + (c - 55296) * 1024 + (c2 - 56320), r2)
                 else Some (c, r))
          else Some (c, r))"

definition simple_escape :: "nat \<Rightarrow> nat option" where
  "simple_escape e =
     (if e = 34 then Some 34 else if e = 92 then Some 92 else if e = 47 then Some 47
      else if e = 98 then Some 8 else if e = 102 then Some 12 else if e = 110 then Some 10
      else if e = 114 then Some 13 else if e = 116 then Some 9 else None)"

lemma parse_hex4_length: "parse_hex4 s = Some (c, r) \<Longrightarrow> length s = length r + 4"
  by (induction s rule: parse_hex4.induct) (simp_all split: option.splits)

lemma parse_u_length:
  assumes "parse_u s = Some (c, r)"
  shows "length r < length s"
proof (cases "parse_hex4 s")
  case None
  with assms show ?thesis by (simp add: parse_u_def)
next
  case (Some p)
  obtain c1 r1 where p: "p = (c1, r1)" by (cases p)
  have l1: "length s = length r1 + 4" using Some p parse_hex4_length by blast
  show ?thesis
  proof (cases "is_high_surrogate c1 \<and> 6 < length r1 \<and> take 2 r1 = [92, 117]")
    case False
    with assms Some p have "r = r1" by (auto simp: parse_u_def)
    with l1 show ?thesis by simp
  next
    case True
    show ?thesis
    proof (cases "parse_hex4 (drop 2 r1)")
      case None
      with assms Some p True show ?thesis by (simp add: parse_u_def)
    next
      case (Some p2)
      obtain c2 r2 where p2: "p2 = (c2, r2)" by (cases p2)
      have l2: "length (drop 2 r1) = length r2 + 4" using Some p2 parse_hex4_length by blast
      have "r = r2 \<or> r = r1"
        using assms \<open>parse_hex4 s = Some p\<close> p True Some p2
        by (auto simp: parse_u_def split: if_splits)
      with l1 l2 show ?thesis by auto
    qed
  qed
qed

text \<open>The body of a string, after the opening quote, up to and including the closing one.\<close>

function scan_string :: "pystr \<Rightarrow> (pystr \<times> pystr) option" where
  "scan_string [] = None"
| "scan_string (c # cs) =
     (if c = 34 then Some ([], cs)
      else if c = 92 then
        (case cs of
           [] \<Rightarrow> None
         | e # r \<Rightarrow>
             if e = 117 then
               (case parse_u r of
                  None \<Rightarrow> None
                | Some (u, r') \<Rightarrow>
                    (case scan_string r' of None \<Rightarrow> None | Some (t, q) \<Rightarrow> Some (u # t, q)))
             else
               (case simple_escape e of
                  None \<Rightarrow> None
                | Some x \<Rightarrow>
                    (case scan_string r of None \<Rightarrow> None | Some (t, q) \<Rightarrow> Some (x # t, q))))
      else if c < 32 then None
      else (case scan_string cs of None \<Rightarrow> None | Some (t, q) \<Rightarrow> Some (c # t, q)))"
  by pat_completeness auto
termination
  apply (relation "measure length")
     apply simp
  subgoal for c cs e r x2 u r' using parse_u_length [of r u r'] by simp
  subgoal by simp
  subgoal by simp
  done

declare scan_string.simps [simp del]


text \<open>
  Numbers: an optional minus sign, then \<open>0\<close> or a non-zero digit followed by digits; an
  optional fraction (a point and at least one digit); an optional exponent (\<open>e\<close> or
  \<open>E\<close>, an optional sign, at least one digit). The scanner of the \<open>json\<close> module reads
  ASCII digits only. A fraction or exponent that is not complete is left unread.
\<close>

definition is_ascii_digit :: "nat \<Rightarrow> bool" where
  "is_ascii_digit c = (48 \<le> c \<and> c \<le> 57)"

definition nat_of_digits :: "pystr \<Rightarrow> nat" where
  "nat_of_digits ds = foldl (\<lambda>a c. 10 * a + (c - 48)) 0 ds"

definition scan_int_part :: "pystr \<Rightarrow> (pystr \<times> pystr) option" where
  "scan_int_part s =
     (case s of
        [] \<Rightarrow> None
      | d # t \<Rightarrow>
          if d = 48 then Some ([48], t)
          else if 49 \<le> d \<and> d \<le> 57
            then Some (d # takeWhile is_ascii_digit t, dropWhile is_ascii_digit t)
          else None)"

definition scan_frac :: "pystr \<Rightarrow> pystr \<times> pystr" where
  "scan_frac s =
     (case s of
        p # d # t \<Rightarrow>
          if p = 46 \<and> is_ascii_digit d
          then (p # d # takeWhile is_ascii_digit t, dropWhile is_ascii_digit t)
          else ([], s)
      | _ \<Rightarrow> ([], s))"

definition scan_exp :: "pystr \<Rightarrow> pystr \<times> pystr" where
  "scan_exp s =
     (case s of
        [] \<Rightarrow> ([], s)
      | e # t \<Rightarrow>
          if e = 101 \<or> e = 69 then
            (let sg = (case t of [] \<Rightarrow> [] | g # _ \<Rightarrow> if g = 45 \<or> g = 43 then [g] else []);
                 u = drop (length sg) t
             in if u \<noteq> [] \<and> is_ascii_digit (hd u)
                then (e # sg @ takeWhile is_ascii_digit u, dropWhile is_ascii_digit u)
                else ([], s))
          else ([], s))"

definition parse_number :: "pystr \<Rightarrow> (json \<times> pystr) option" where
  "parse_number s =
     (let sign = (case s of [] \<Rightarrow> [] | m # _ \<Rightarrow> if m = 45 then [m] else [])
      in case scan_int_part (drop (length sign) s) of
           None \<Rightarrow> None
         | Some (ds, r) \<Rightarrow>
             (let (fr, r1) = scan_frac r; (ex, r2) = scan_exp r1
              in if fr = [] \<and> ex = []
                 then Some (JInt (if sign = [] then int (nat_of_digits ds)
                                  else - int (nat_of_digits ds)), r)
                 else Some (JFloat (sign @ ds @ fr @ ex), r2)))"

text \<open>
  \<open>dict(pairs)\<close>: a key that comes again keeps its first position and takes the later
  value.
\<close>

fun dict_set :: "(pystr \<times> json) list \<Rightarrow> pystr \<Rightarrow> json \<Rightarrow> (pystr \<times> json) list" where
  "dict_set [] k v = [(k, v)]"
| "dict_set ((k', v') # d) k v =
     (if k' = k then (k', v) # d else (k', v') # dict_set d k v)"

definition dict_of_pairs :: "(pystr \<times> json) list \<Rightarrow> (pystr \<times> json) list" where
  "dict_of_pairs ps = foldl (\<lambda>d (k, v). dict_set d k v) [] ps"

definition starts_with :: "pystr \<Rightarrow> pystr \<Rightarrow> bool" where
  "starts_with s p = (take (length p) s = p)"

text \<open>The constants and the numbers.\<close>

definition parse_atom :: "pystr \<Rightarrow> (json \<times> pystr) option" where
  "parse_atom s =
     (if starts_with s (lit ''null'') then Some (JNull, drop 4 s)
      else if starts_with s (lit ''true'') then Some (JBool True, drop 4 s)
      else if starts_with s (lit ''false'') then Some (JBool False, drop 5 s)
      else if starts_with s (lit ''NaN'') then Some (JFloat (lit ''NaN''), drop 3 s)
      else if starts_with s (lit ''Infinity'') then Some (JFloat (lit ''Infinity''), drop 8 s)
      else if starts_with s (lit ''-Infinity'') then Some (JFloat (lit ''-Infinity''), drop 9 s)
      else parse_number s)"

text \<open>
  The recursive scanner. The first argument bounds the number of nested calls; every call
  but the outermost follows at least one character read, and \<open>json_loads\<close> starts with
  more than twice the length of the text, which is enough for every text
  (\<open>json_loads_complete\<close> below).
\<close>

fun parse_value :: "nat \<Rightarrow> pystr \<Rightarrow> (json \<times> pystr) option"
  and parse_array :: "nat \<Rightarrow> pystr \<Rightarrow> (json list \<times> pystr) option"
  and parse_object :: "nat \<Rightarrow> pystr \<Rightarrow> ((pystr \<times> json) list \<times> pystr) option"
where
  "parse_value 0 s = None"
| "parse_value (Suc n) s =
     (case s of
        [] \<Rightarrow> None
      | c # t \<Rightarrow>
          if c = 34 then
            (case scan_string t of None \<Rightarrow> None | Some (x, r) \<Rightarrow> Some (JStr x, r))
          else if c = 123 then
            (if starts_with (skip_ws t) [125] then Some (JDict [], drop 1 (skip_ws t))
             else (case parse_object n (skip_ws t) of
                     None \<Rightarrow> None
                   | Some (kvs, r) \<Rightarrow> Some (JDict (dict_of_pairs kvs), r)))
          else if c = 91 then
            (if starts_with (skip_ws t) [93] then Some (JList [], drop 1 (skip_ws t))
             else (case parse_array n (skip_ws t) of
                     None \<Rightarrow> None
                   | Some (xs, r) \<Rightarrow> Some (JList xs, r)))
          else parse_atom s)"
| "parse_array 0 s = None"
| "parse_array (Suc n) s =
     (case parse_value n s of
        None \<Rightarrow> None
      | Some (v, r) \<Rightarrow>
          if starts_with (skip_ws r) [93] then Some ([v], drop 1 (skip_ws r))
          else if starts_with (skip_ws r) [44] then
            (case parse_array n (skip_ws (drop 1 (skip_ws r))) of
               None \<Rightarrow> None
             | Some (vs, r') \<Rightarrow> Some (v # vs, r'))
          else None)"
| "parse_object 0 s = None"
| "parse_object (Suc n) s =
     (if starts_with s [34] then
        (case scan_string (drop 1 s) of
           None \<Rightarrow> None
         | Some (k, r) \<Rightarrow>
             if starts_with (skip_ws r) [58] then
               (case parse_value n (skip_ws (drop 1 (skip_ws r))) of
                  None \<Rightarrow> None
                | Some (v, r') \<Rightarrow>
                    if starts_with (skip_ws r') [125] then Some ([(k, v)], drop 1 (skip_ws r'))
                    else if starts_with (skip_ws r') [44] then
                      (case parse_object n (skip_ws (drop 1 (skip_ws r'))) of
                         None \<Rightarrow> None
                       | Some (kvs, r'') \<Rightarrow> Some ((k, v) # kvs, r''))
                    else None)
             else None)
      else None)"

definition json_loads :: "pystr \<Rightarrow> json option" where
  "json_loads s =
     (case parse_value (2 * length s + 2) (skip_ws s) of
        None \<Rightarrow> None
      | Some (v, r) \<Rightarrow> if skip_ws r = [] then Some v else None)"


section \<open>Framing: \<open>encode_lsp\<close> and \<open>read_responses\<close>\<close>

text \<open>
  \<^verbatim>\<open>
  def encode_lsp(obj):
      content = json.dumps(obj)
      return f"Content-Length: {len(content)}\r\n\r\n{content}"
  \<close>
  \<open>len\<close> is the number of code points of the serialized text.
\<close>

definition encode_lsp :: "json \<Rightarrow> pystr" where
  "encode_lsp obj =
     (let content = json_dumps obj
      in lit ''Content-Length: '' @ str_nat (length content) @ [13, 10, 13, 10] @ content)"

text \<open>\<open>p in s\<close> on strings.\<close>

fun contains :: "pystr \<Rightarrow> pystr \<Rightarrow> bool" where
  "contains [] p = (p = [])"
| "contains (c # cs) p = (starts_with (c # cs) p \<or> contains cs p)"

text \<open>
  \<open>re.search(r'Content-Length: (\d+)\r?\n\r?\n', buffer)\<close>. The search returns the
  leftmost match. At one start position the match is unique: \<open>\d+\<close> is greedy and a
  shorter run of digits would have to be followed by a digit where the pattern wants a line
  end, and giving back an optional \<open>\r\<close> leaves a \<open>\r\<close> where \<open>\n\<close> is wanted. The result
  is \<open>match.group(1)\<close> with \<open>match.end()\<close>.
\<close>

definition match_eol :: "pystr \<Rightarrow> nat option" where
  "match_eol s =
     (if starts_with s [13, 10] then Some 2 else if starts_with s [10] then Some 1 else None)"

definition match_here :: "(nat \<Rightarrow> nat option) \<Rightarrow> pystr \<Rightarrow> (pystr \<times> nat) option" where
  "match_here nd s =
     (if starts_with s (lit ''Content-Length: '') then
        (let ds = takeWhile (is_digit nd) (drop 16 s);
             r = drop (16 + length ds) s
         in if ds = [] then None
            else (case match_eol r of
                    None \<Rightarrow> None
                  | Some a \<Rightarrow>
                      (case match_eol (drop a r) of
                         None \<Rightarrow> None
                       | Some b \<Rightarrow> Some (ds, 16 + length ds + a + b))))
      else None)"

fun re_search :: "(nat \<Rightarrow> nat option) \<Rightarrow> pystr \<Rightarrow> (pystr \<times> nat) option" where
  "re_search nd [] = None"
| "re_search nd (c # cs) =
     (case match_here nd (c # cs) of
        Some m \<Rightarrow> Some m
      | None \<Rightarrow> (case re_search nd cs of None \<Rightarrow> None | Some (g, e) \<Rightarrow> Some (g, Suc e)))"

lemma starts_with_length: "starts_with s p \<Longrightarrow> length p \<le> length s"
proof -
  assume "starts_with s p"
  then have "length (take (length p) s) = length p" by (simp add: starts_with_def)
  then show ?thesis by simp
qed

lemma match_eol_bounds: "match_eol s = Some a \<Longrightarrow> 0 < a \<and> a \<le> length s"
  by (auto simp: match_eol_def split: if_splits dest: starts_with_length)

lemma match_here_bounds:
  assumes "match_here nd s = Some (g, e)"
  shows "0 < e \<and> e \<le> length s"
proof -
  define ds where "ds = takeWhile (is_digit nd) (drop 16 s)"
  define r where "r = drop (16 + length ds) s"
  from assms obtain a b where a: "match_eol r = Some a" and b: "match_eol (drop a r) = Some b"
    and e: "e = 16 + length ds + a + b"
    by (auto simp: match_here_def Let_def ds_def r_def split: if_splits option.splits)
  from a have "a \<le> length r" using match_eol_bounds by blast
  moreover from b have "0 < b" "b \<le> length r - a" using match_eol_bounds [of "drop a r" b] by auto
  moreover from a have "0 < length r" using match_eol_bounds by fastforce
  ultimately show ?thesis using e by (auto simp: r_def)
qed

lemma re_search_bounds: "re_search nd s = Some (g, e) \<Longrightarrow> 0 < e \<and> e \<le> length s"
proof (induction s arbitrary: e)
  case Nil
  then show ?case by simp
next
  case (Cons c cs)
  show ?case
  proof (cases "match_here nd (c # cs)")
    case (Some m)
    with Cons.prems have "match_here nd (c # cs) = Some (g, e)" by simp
    then show ?thesis by (rule match_here_bounds)
  next
    case None
    with Cons.prems obtain e' where "re_search nd cs = Some (g, e')" "e = Suc e'"
      by (auto split: option.splits)
    with Cons.IH [of e'] show ?thesis by simp
  qed
qed

text \<open>
  The inner loop of \<open>read_responses\<close>, on the buffer and the messages put on the queue so
  far:
  \<^verbatim>\<open>
  while "Content-Length:" in buffer:
      match = re.search(r'Content-Length: (\d+)\r?\n\r?\n', buffer)
      if not match:
          break
      length = int(match.group(1))
      header_end = match.end()
      if len(buffer) >= header_end + length:
          content = buffer[header_end:header_end + length]
          buffer = buffer[header_end + length:]
          try:
              response_queue.put(json.loads(content))
          except:
              pass
      else:
          break
  \<close>
  The limit that newer interpreters put on the number of digits \<open>int\<close> reads is not
  modelled.
\<close>

function decode_loop ::
  "(nat \<Rightarrow> nat option) \<Rightarrow> pystr \<Rightarrow> json list \<Rightarrow> pystr \<times> json list" where
  "decode_loop nd buffer queue =
     (if contains buffer (lit ''Content-Length:'') then
        (case re_search nd buffer of
           None \<Rightarrow> (buffer, queue)
         | Some (g, header_end) \<Rightarrow>
             if header_end + int_of_digits nd g \<le> length buffer then
               decode_loop nd (drop (header_end + int_of_digits nd g) buffer)
                 (case json_loads (take (int_of_digits nd g) (drop header_end buffer)) of
                    Some v \<Rightarrow> queue @ [v]
                  | None \<Rightarrow> queue)
             else (buffer, queue))
      else (buffer, queue))"
  by pat_completeness auto
termination
  apply (relation "measure (\<lambda>(nd, buffer, queue). length buffer)")
   apply simp
  subgoal for nd buffer queue x2 g header_end using re_search_bounds [of nd buffer g header_end] by simp
  done

declare decode_loop.simps [simp del]

text \<open>
  The outer loop:
  \<^verbatim>\<open>
  buffer = ""
  while not stop_event.is_set():
      try:
          chunk = stdout.read(1)
          if not chunk:
              break
          buffer += chunk
          ...inner loop...
      except:
          break
  \<close>
  The stream hands over its text in pieces of any size; \<open>stdout.read(1)\<close> takes one
  character from the piece at hand, and an empty read is taken for the end of the stream.
  The pieces are the text as the stream's text layer returns it (the scripts open the pipes
  with \<open>text=True\<close>). Setting the stop event ends the loop as the end of the stream does, so
  the pieces are those read until either. An exception raised by the stream itself is not
  modelled.
\<close>

fun read1 :: "pystr list \<Rightarrow> (nat \<times> pystr list) option" where
  "read1 [] = None"
| "read1 ([] # rest) = None"
| "read1 ([c] # rest) = Some (c, rest)"
| "read1 ((c # d # cs) # rest) = Some (c, (d # cs) # rest)"

definition read_step ::
  "(nat \<Rightarrow> nat option) \<Rightarrow> pystr \<times> json list \<Rightarrow> nat \<Rightarrow> pystr \<times> json list" where
  "read_step nd st chunk = decode_loop nd (fst st @ [chunk]) (snd st)"

lemma read1_length:
  "read1 chunks = Some (c, chunks') \<Longrightarrow> length (concat chunks') < length (concat chunks)"
  by (induction chunks rule: read1.induct) auto

function read_loop ::
  "(nat \<Rightarrow> nat option) \<Rightarrow> pystr \<times> json list \<Rightarrow> pystr list \<Rightarrow> pystr \<times> json list" where
  "read_loop nd st chunks =
     (case read1 chunks of
        None \<Rightarrow> st
      | Some (c, chunks') \<Rightarrow> read_loop nd (read_step nd st c) chunks')"
  by pat_completeness auto
termination
  apply (relation "measure (\<lambda>(nd, st, chunks). length (concat chunks))")
   apply simp
  subgoal for nd st chunks x2 c chunks' using read1_length [of chunks c chunks'] by simp
  done

declare read_loop.simps [simp del]

text \<open>
  \<open>read_responses\<close> returns nothing; its effect is the messages put on the queue, given here
  with the buffer left when the loop ends.
\<close>

definition read_responses :: "(nat \<Rightarrow> nat option) \<Rightarrow> pystr list \<Rightarrow> pystr \<times> json list" where
  "read_responses nd stdout = read_loop nd ([], []) stdout"

text \<open>
  Two instances used at concrete inputs: a digit table with no entry beyond ASCII (on a text
  without such digits every table gives the same result), and the stream that hands over one
  character at a time.
\<close>

definition ascii_digits :: "nat \<Rightarrow> nat option" where
  "ascii_digits c = None"

definition one_by_one :: "pystr \<Rightarrow> pystr list" where
  "one_by_one s = map (\<lambda>c. [c]) s"

text \<open>The same loop on the characters one after the other, for the proofs.\<close>

definition read_from ::
  "(nat \<Rightarrow> nat option) \<Rightarrow> pystr \<times> json list \<Rightarrow> pystr \<Rightarrow> pystr \<times> json list" where
  "read_from nd st cs = foldl (read_step nd) st cs"

lemma read_loop_read_from:
  "[] \<notin> set chunks \<Longrightarrow> read_loop nd st chunks = read_from nd st (concat chunks)"
proof (induction nd st chunks rule: read_loop.induct)
  case (1 nd st chunks)
  show ?case
  proof (cases chunks)
    case Nil
    then show ?thesis by (subst read_loop.simps) (simp add: read_from_def)
  next
    case (Cons ch rest)
    with "1.prems" obtain c cs where ch: "ch = c # cs" by (cases ch) auto
    show ?thesis
    proof (cases cs)
      case Nil
      have r: "read1 chunks = Some (c, rest)" by (simp add: Cons ch Nil)
      have "read_loop nd (read_step nd st c) rest =
            read_from nd (read_step nd st c) (concat rest)"
        using "1.IH" [OF r refl] "1.prems" by (simp add: Cons)
      then show ?thesis
        by (subst read_loop.simps) (simp add: r read_from_def Cons ch Nil)
    next
      case (Cons d ds)
      have r: "read1 chunks = Some (c, (d # ds) # rest)" by (simp add: \<open>chunks = ch # rest\<close> ch Cons)
      have "read_loop nd (read_step nd st c) ((d # ds) # rest) =
            read_from nd (read_step nd st c) (concat ((d # ds) # rest))"
        using "1.IH" [OF r refl] "1.prems" by (simp add: \<open>chunks = ch # rest\<close>)
      then show ?thesis
        by (subst read_loop.simps) (simp add: r read_from_def \<open>chunks = ch # rest\<close> ch Cons)
    qed
  qed
qed

section \<open>Well-formed messages\<close>

text \<open>Values without floats, and texts of ASCII characters only.\<close>

fun float_free :: "json \<Rightarrow> bool" where
  "float_free (JFloat t) = False"
| "float_free (JList xs) = list_all float_free xs"
| "float_free (JDict kvs) = list_all float_free (map snd kvs)"
| "float_free _ = True"

definition ascii :: "pystr \<Rightarrow> bool" where
  "ascii s = list_all (\<lambda>c. c < 128) s"


section \<open>The serialized text is ASCII\<close>

lemma ascii_append [simp]: "ascii (a @ b) = (ascii a \<and> ascii b)"
  by (simp add: ascii_def)

lemma ascii_Cons [simp]: "ascii (c # s) = (c < 128 \<and> ascii s)"
  by (simp add: ascii_def)

lemma ascii_Nil [simp]: "ascii []"
  by (simp add: ascii_def)

lemma ascii_utf8_len: "ascii s \<Longrightarrow> utf8_len s = length s"
  by (induction s) (simp_all add: utf8_len_def utf8_len_cp_def)

lemma ascii_dec_rev: "ascii (dec_rev n)"
proof (induction n rule: dec_rev.induct)
  case (1 n)
  show ?case
  proof (cases "n < 10")
    case True
    then show ?thesis by (subst dec_rev.simps) simp
  next
    case False
    have "n mod 10 < 10" by simp
    then have "48 + n mod 10 < 128" by linarith
    with False 1 show ?thesis by (subst dec_rev.simps) simp
  qed
qed

lemma ascii_rev [simp]: "ascii (rev s) = ascii s"
  by (simp add: ascii_def)

lemma ascii_str_nat: "ascii (str_nat n)"
  by (simp add: str_nat_def ascii_dec_rev)

lemma ascii_str_int: "ascii (str_int i)"
  by (simp add: str_int_def ascii_str_nat)

lemma ascii_hex_digit: "d < 16 \<Longrightarrow> hex_digit d < 128"
  by (simp add: hex_digit_def)

lemma ascii_u_escape: "ascii (u_escape n)"
  by (simp add: u_escape_def hex4_def ascii_hex_digit)

lemma ascii_escape_cp: "ascii (escape_cp c)"
  by (simp add: escape_cp_def ascii_u_escape)

lemma ascii_concat: "(\<And>x. x \<in> set xs \<Longrightarrow> ascii x) \<Longrightarrow> ascii (concat xs)"
  by (induction xs) simp_all

lemma ascii_dumps_str: "ascii (dumps_str s)"
  by (auto simp: dumps_str_def ascii_escape_cp intro!: ascii_concat)

lemma ascii_join_comma: "(\<And>x. x \<in> set xs \<Longrightarrow> ascii x) \<Longrightarrow> ascii (join_comma xs)"
  by (induction xs rule: join_comma.induct) simp_all

lemma ascii_lit_null: "ascii (lit ''null'')" "ascii (lit ''true'')" "ascii (lit ''false'')"
  by (simp_all add: lit_def)

lemma ascii_json_dumps: "float_free m \<Longrightarrow> ascii (json_dumps m)"
proof (induction m)
  case (JList xs)
  then show ?case by (auto simp: list_all_iff intro!: ascii_join_comma)
next
  case (JDict kvs)
  have "ascii (join_comma (map (\<lambda>(k, v). dumps_str k @ [58, 32] @ json_dumps v) kvs))"
  proof (rule ascii_join_comma)
    fix x assume "x \<in> set (map (\<lambda>(k, v). dumps_str k @ [58, 32] @ json_dumps v) kvs)"
    then obtain k v where kv: "(k, v) \<in> set kvs" and x: "x = dumps_str k @ [58, 32] @ json_dumps v"
      by auto
    from kv JDict.prems have "float_free v" by (auto simp: list_all_iff)
    moreover from kv have "v \<in> Basic_BNFs.snds (k, v)" by simp
    ultimately have "ascii (json_dumps v)" using JDict.IH kv by blast
    then show "ascii x" by (simp add: x ascii_dumps_str)
  qed
  then show ?case by simp
qed (simp_all add: ascii_lit_null ascii_str_int ascii_dumps_str)


section \<open>Decimal numerals are read back\<close>

lemma dec_rev_digits: "c \<in> set (dec_rev n) \<Longrightarrow> 48 \<le> c \<and> c \<le> 57"
proof (induction n rule: dec_rev.induct)
  case (1 n)
  show ?case
  proof (cases "n < 10")
    case True
    with "1.prems" show ?thesis by (subst (asm) dec_rev.simps) simp
  next
    case False
    have "n mod 10 < 10" by simp
    then have "48 + n mod 10 \<le> 57" by linarith
    with False 1 show ?thesis by (subst (asm) dec_rev.simps) auto
  qed
qed

lemma dec_rev_nonempty: "dec_rev n \<noteq> []"
  by (subst dec_rev.simps) simp

lemma str_nat_digits: "c \<in> set (str_nat n) \<Longrightarrow> 48 \<le> c \<and> c \<le> 57"
  by (simp add: str_nat_def dec_rev_digits)

lemma str_nat_nonempty: "str_nat n \<noteq> []"
  by (simp add: str_nat_def dec_rev_nonempty)

lemma digit_val_ascii: "48 \<le> c \<Longrightarrow> c \<le> 57 \<Longrightarrow> digit_val nd c = Some (c - 48)"
  by (simp add: digit_val_def)

lemma int_of_digits_snoc:
  "int_of_digits nd (ds @ [c]) =
     10 * int_of_digits nd ds + (case digit_val nd c of Some d \<Rightarrow> d | None \<Rightarrow> 0)"
  by (simp add: int_of_digits_def)

lemma int_of_digits_str_nat: "int_of_digits nd (str_nat n) = n"
proof (induction n rule: dec_rev.induct)
  case (1 n)
  show ?case
  proof (cases "n < 10")
    case True
    then have "str_nat n = [48 + n]" by (simp add: str_nat_def dec_rev.simps)
    with True show ?thesis by (simp add: int_of_digits_def digit_val_def)
  next
    case False
    have m: "n mod 10 < 10" by simp
    from False have "str_nat n = str_nat (n div 10) @ [48 + n mod 10]"
      by (simp add: str_nat_def dec_rev.simps [of n])
    moreover from m have "digit_val nd (48 + n mod 10) = Some (n mod 10)"
      by (simp add: digit_val_def)
    ultimately show ?thesis using 1 False by (simp add: int_of_digits_snoc)
  qed
qed

lemma takeWhile_digits_str_nat:
  assumes "r = [] \<or> \<not> is_digit nd (hd r)"
  shows "takeWhile (is_digit nd) (str_nat n @ r) = str_nat n"
proof -
  have "is_digit nd c" if "c \<in> set (str_nat n)" for c
    using str_nat_digits [OF that] by (simp add: is_digit_def digit_val_def)
  then have "takeWhile (is_digit nd) (str_nat n @ r) = str_nat n @ takeWhile (is_digit nd) r"
    by (simp add: takeWhile_append2)
  moreover from assms have "takeWhile (is_digit nd) r = []" by (cases r) auto
  ultimately show ?thesis by simp
qed

section \<open>\<open>json.loads\<close> reads back what \<open>json.dumps\<close> writes\<close>

text \<open>
  The messages the round trip is stated for. A text is a sequence of code points (below
  \<open>0x110000\<close>, as in any Python \<open>str\<close>) in which no high surrogate is directly followed by
  a low surrogate: such a pair is printed as two escapes, which \<open>json.loads\<close> joins into
  one character. A message has no floats, its strings and keys are such texts, and the keys
  of a dictionary are pairwise different, as in any Python \<open>dict\<close>.
\<close>

fun no_surrogate_pair :: "pystr \<Rightarrow> bool" where
  "no_surrogate_pair (a # b # s) =
     (\<not> (is_high_surrogate a \<and> is_low_surrogate b) \<and> no_surrogate_pair (b # s))"
| "no_surrogate_pair s = True"

definition text_ok :: "pystr \<Rightarrow> bool" where
  "text_ok s = (list_all (\<lambda>c. c < 1114112) s \<and> no_surrogate_pair s)"

lemma hex_val_hex_digit: "d < 16 \<Longrightarrow> hex_val (hex_digit d) = Some d"
  by (auto simp: hex_val_def hex_digit_def)

lemma hex4_value:
  fixes n :: nat
  assumes "n < 65536"
  shows "((n div 4096 mod 16 * 16 + n div 256 mod 16) * 16 + n div 16 mod 16) * 16 + n mod 16 = n"
proof -
  have d1: "n div 256 = n div 16 div 16" using div_mult2_eq [of n 16 16] by simp
  have d2: "n div 4096 = n div 16 div 16 div 16" using div_mult2_eq [of n 256 16] d1 by simp
  have "n div 4096 < 16" using assms by (simp add: less_mult_imp_div_less)
  then have m: "n div 4096 mod 16 = n div 16 div 16 div 16" using d2 by simp
  show ?thesis unfolding m d1 by (simp only: div_mult_mod_eq)
qed

lemma parse_hex4_hex4:
  assumes "n < 65536"
  shows "parse_hex4 (hex4 n @ r) = Some (n, r)"
proof -
  have h: "hex_val (hex_digit (k mod 16)) = Some (k mod 16)" for k
    by (simp add: hex_val_hex_digit)
  show ?thesis
    by (simp only: hex4_def append_Cons append_Nil parse_hex4.simps h option.case
          hex4_value [OF assms])
qed

lemma length_hex4: "length (hex4 n) = 4"
  by (simp add: hex4_def)

lemma parse_u_bmp:
  assumes "n < 65536" "\<not> is_high_surrogate n"
  shows "parse_u (hex4 n @ r) = Some (n, r)"
  using assms by (simp add: parse_u_def parse_hex4_hex4)

lemma parse_u_pair:
  assumes "65536 \<le> c" "c < 1114112" "r \<noteq> []"
  shows "parse_u (hex4 (55296 + (c - 65536) div 1024 mod 1024) @
                  u_escape (56320 + (c - 65536) mod 1024) @ r) = Some (c, r)"
proof -
  define v where "v = c - 65536"
  define hi where "hi = 55296 + v div 1024 mod 1024"
  define lo where "lo = 56320 + v mod 1024"
  from assms have v: "v < 1048576" by (simp add: v_def)
  then have d: "v div 1024 < 1024" by simp
  have hi: "hi < 65536" "is_high_surrogate hi"
    using d by (simp_all add: hi_def is_high_surrogate_def)
  have m: "v mod 1024 < 1024" by simp
  have lo: "lo < 65536" "is_low_surrogate lo"
    using m by (simp_all add: lo_def is_low_surrogate_def)
  have p1: "parse_hex4 (hex4 hi @ u_escape lo @ r) = Some (hi, u_escape lo @ r)"
    using hi(1) by (rule parse_hex4_hex4)
  have len: "6 < length (u_escape lo @ r)"
    using assms(3) by (cases r) (simp_all add: u_escape_def length_hex4)
  have t2: "take 2 (u_escape lo @ r) = [92, 117]" by (simp add: u_escape_def)
  have d2: "drop 2 (u_escape lo @ r) = hex4 lo @ r" by (simp add: u_escape_def)
  have p2: "parse_hex4 (drop 2 (u_escape lo @ r)) = Some (lo, r)"
    unfolding d2 using lo(1) by (rule parse_hex4_hex4)
  have val: "65536 + (hi - 55296) * 1024 + (lo - 56320) = c"
    using assms(1) d by (simp add: hi_def lo_def v_def)
  have "parse_u (hex4 hi @ u_escape lo @ r) = Some (c, r)"
    by (simp only: parse_u_def p1 option.case prod.case hi(2) len t2 simp_thms if_True p2 lo(2) val)
  then show ?thesis by (simp only: hi_def lo_def v_def)
qed

fun valid_json :: "json \<Rightarrow> bool" where
  "valid_json (JFloat t) = False"
| "valid_json (JStr s) = text_ok s"
| "valid_json (JList xs) = list_all valid_json xs"
| "valid_json (JDict kvs) =
     (distinct (map fst kvs) \<and> list_all text_ok (map fst kvs) \<and>
      list_all valid_json (map snd kvs))"
| "valid_json _ = True"

text \<open>Putting a character in front of a scanned string.\<close>

definition consr :: "nat \<Rightarrow> (pystr \<times> pystr) option \<Rightarrow> (pystr \<times> pystr) option" where
  "consr c x = (case x of None \<Rightarrow> None | Some (t, q) \<Rightarrow> Some (c # t, q))"

text \<open>
  The text after an escaped high surrogate that would change how it is read: an escape
  follows that is a low surrogate, or is not four hexadecimal digits.
\<close>

definition joins :: "pystr \<Rightarrow> bool" where
  "joins r =
     (6 < length r \<and> take 2 r = [92, 117] \<and>
      (case parse_hex4 (drop 2 r) of None \<Rightarrow> True | Some (c2, r2) \<Rightarrow> is_low_surrogate c2))"

lemma parse_u_lone:
  assumes "n < 65536" and "is_high_surrogate n \<Longrightarrow> \<not> joins r"
  shows "parse_u (hex4 n @ r) = Some (n, r)"
proof (cases "is_high_surrogate n \<and> 6 < length r \<and> take 2 r = [92, 117]")
  case False
  then show ?thesis using assms(1) by (auto simp: parse_u_def parse_hex4_hex4)
next
  case True
  with assms(2) obtain c2 r2 where p: "parse_hex4 (drop 2 r) = Some (c2, r2)"
    and l: "\<not> is_low_surrogate c2"
    by (auto simp: joins_def split: option.splits)
  show ?thesis using True assms(1) p l by (simp add: parse_u_def parse_hex4_hex4)
qed

lemma not_joins: "take 2 r \<noteq> [92, 117] \<Longrightarrow> \<not> joins r"
  by (simp add: joins_def)

lemma joins_u_escape:
  "parse_hex4 (x @ r) = Some (c2, r2) \<Longrightarrow> \<not> is_low_surrogate c2 \<Longrightarrow>
   \<not> joins ([92, 117] @ x @ r)"
proof -
  assume p: "parse_hex4 (x @ r) = Some (c2, r2)" and l: "\<not> is_low_surrogate c2"
  have "drop 2 ([92, 117] @ x @ r) = x @ r" by simp
  then have "parse_hex4 (drop 2 ([92, 117] @ x @ r)) = Some (c2, r2)" using p by simp
  then show ?thesis using l unfolding joins_def by simp
qed

lemma escape_cp_not_joins:
  assumes "c < 1114112" "\<not> is_low_surrogate c"
  shows "\<not> joins (escape_cp c @ r)"
proof -
  consider (q) "c = 34" | (b) "c = 92" | (p) "32 \<le> c" "c \<le> 126" "c \<noteq> 34" "c \<noteq> 92"
    | (s) "c = 10 \<or> c = 13 \<or> c = 9 \<or> c = 12 \<or> c = 8"
    | (u) "c < 32 \<or> 126 < c" "c \<noteq> 10" "c \<noteq> 13" "c \<noteq> 9" "c \<noteq> 12" "c \<noteq> 8" "c < 65536"
    | (w) "65536 \<le> c"
    by linarith
  then show ?thesis
  proof cases
    case q
    then have "take 2 (escape_cp c @ r) \<noteq> [92, 117]" by (simp add: escape_cp_def)
    then show ?thesis by (rule not_joins)
  next
    case b
    then have "take 2 (escape_cp c @ r) \<noteq> [92, 117]" by (simp add: escape_cp_def)
    then show ?thesis by (rule not_joins)
  next
    case p
    then have "take 2 (escape_cp c @ r) \<noteq> [92, 117]" by (simp add: escape_cp_def)
    then show ?thesis by (rule not_joins)
  next
    case s
    then have "take 2 (escape_cp c @ r) \<noteq> [92, 117]" by (auto simp: escape_cp_def)
    then show ?thesis by (rule not_joins)
  next
    case u
    from u have e: "escape_cp c @ r = [92, 117] @ hex4 c @ r"
      by (auto simp: escape_cp_def u_escape_def)
    show ?thesis
      unfolding e using parse_hex4_hex4 [OF u(7), of r] assms(2) by (rule joins_u_escape)
  next
    case w
    define hi where "hi = 55296 + (c - 65536) div 1024 mod 1024"
    define r' where "r' = u_escape (56320 + (c - 65536) mod 1024) @ r"
    from w have e: "escape_cp c @ r = [92, 117] @ hex4 hi @ r'"
      by (simp add: escape_cp_def u_escape_def hi_def r'_def)
    have "(c - 65536) div 1024 mod 1024 < 1024" by simp
    then have hi: "hi < 65536" "\<not> is_low_surrogate hi"
      by (simp_all add: hi_def is_low_surrogate_def)
    show ?thesis
      unfolding e using parse_hex4_hex4 [OF hi(1), of r'] hi(2) by (rule joins_u_escape)
  qed
qed

lemma escaped_not_joins:
  assumes "list_all (\<lambda>c. c < 1114112) s" "s = [] \<or> \<not> is_low_surrogate (hd s)"
  shows "\<not> joins (concat (map escape_cp s) @ 34 # r)"
proof (cases s)
  case Nil
  have "take 2 (34 # r) \<noteq> [92, 117]" by simp
  then have "\<not> joins (34 # r)" by (rule not_joins)
  then show ?thesis by (simp add: Nil)
next
  case (Cons c s')
  with assms have "c < 1114112" "\<not> is_low_surrogate c" by simp_all
  then have "\<not> joins (escape_cp c @ (concat (map escape_cp s') @ 34 # r))"
    by (rule escape_cp_not_joins)
  then show ?thesis by (simp add: Cons)
qed

lemma scan_string_escape_cp:
  assumes "c < 1114112" "r \<noteq> []" "is_high_surrogate c \<Longrightarrow> \<not> joins r"
  shows "scan_string (escape_cp c @ r) = consr c (scan_string r)"
proof -
  consider (q) "c = 34" | (b) "c = 92" | (p) "32 \<le> c" "c \<le> 126" "c \<noteq> 34" "c \<noteq> 92"
    | (s) "c = 10 \<or> c = 13 \<or> c = 9 \<or> c = 12 \<or> c = 8"
    | (u) "c < 32 \<or> 126 < c" "c \<noteq> 10" "c \<noteq> 13" "c \<noteq> 9" "c \<noteq> 12" "c \<noteq> 8" "c < 65536"
    | (w) "65536 \<le> c"
    by linarith
  then show ?thesis
  proof cases
    case q
    then show ?thesis by (simp add: escape_cp_def scan_string.simps simple_escape_def consr_def)
  next
    case b
    then show ?thesis by (simp add: escape_cp_def scan_string.simps simple_escape_def consr_def)
  next
    case p
    then show ?thesis by (simp add: escape_cp_def scan_string.simps(2) [of c] consr_def)
  next
    case s
    then show ?thesis
      by (auto simp: escape_cp_def scan_string.simps(2) [of 92] simple_escape_def consr_def)
  next
    case u
    from u have e: "escape_cp c = [92, 117] @ hex4 c"
      by (auto simp: escape_cp_def u_escape_def)
    show ?thesis
      unfolding e using parse_u_lone [OF u(7) assms(3)]
      by (simp add: scan_string.simps(2) [of 92] consr_def)
  next
    case w
    from w have e: "escape_cp c = [92, 117] @ hex4 (55296 + (c - 65536) div 1024 mod 1024) @
        u_escape (56320 + (c - 65536) mod 1024)"
      by (simp add: escape_cp_def u_escape_def)
    show ?thesis
      unfolding e using parse_u_pair [OF w assms(1, 2)]
      by (simp add: scan_string.simps(2) [of 92] consr_def)
  qed
qed

lemma scan_string_escaped:
  "text_ok s \<Longrightarrow> scan_string (concat (map escape_cp s) @ 34 # r) = Some (s, r)"
proof (induction s)
  case Nil
  then show ?case by (simp add: scan_string.simps)
next
  case (Cons c s)
  from Cons.prems have c: "c < 1114112" and all: "list_all (\<lambda>c. c < 1114112) s"
    by (simp_all add: text_ok_def)
  from Cons.prems have np: "no_surrogate_pair s" by (cases s) (simp_all add: text_ok_def)
  from Cons.prems have f: "is_high_surrogate c \<Longrightarrow> s = [] \<or> \<not> is_low_surrogate (hd s)"
    by (cases s) (simp_all add: text_ok_def)
  have t: "text_ok s" using all np by (simp add: text_ok_def)
  have j: "is_high_surrogate c \<Longrightarrow> \<not> joins (concat (map escape_cp s) @ 34 # r)"
    using escaped_not_joins [OF all] f by blast
  show ?case
    using Cons.IH [OF t] scan_string_escape_cp [OF c _ j]
    by (simp add: consr_def)
qed

lemma scan_string_dumps_str:
  "text_ok s \<Longrightarrow> scan_string (tl (dumps_str s) @ r) = Some (s, r)"
  using scan_string_escaped [of s r] by (simp add: dumps_str_def)


text \<open>A text that cannot continue a number.\<close>

definition num_end :: "pystr \<Rightarrow> bool" where
  "num_end r = (case r of [] \<Rightarrow> True | c # _ \<Rightarrow> \<not> is_ascii_digit c \<and> c \<noteq> 46 \<and> c \<noteq> 101 \<and> c \<noteq> 69)"

lemma dec_rev_last: "0 < n \<Longrightarrow> 49 \<le> last (dec_rev n)"
proof (induction n rule: dec_rev.induct)
  case (1 n)
  show ?case
  proof (cases "n < 10")
    case True
    with "1.prems" show ?thesis by (subst dec_rev.simps) simp
  next
    case False
    then have "0 < n div 10" by simp
    with False 1 have "49 \<le> last (dec_rev (n div 10))" by simp
    with False show ?thesis by (subst dec_rev.simps) (simp add: dec_rev_nonempty)
  qed
qed

lemma str_nat_0: "str_nat 0 = [48]"
  by (simp add: str_nat_def dec_rev.simps)

lemma str_nat_pos:
  assumes "0 < n"
  shows "\<exists>d ds. str_nat n = d # ds \<and> 49 \<le> d \<and> d \<le> 57 \<and> (\<forall>c \<in> set ds. is_ascii_digit c)"
proof -
  obtain d ds where e: "str_nat n = d # ds" using str_nat_nonempty [of n] by (cases "str_nat n") auto
  have "d = last (dec_rev n)"
    using e by (metis dec_rev_nonempty hd_rev list.sel(1) str_nat_def)
  then have "49 \<le> d" using dec_rev_last [OF assms] by simp
  moreover have "d \<le> 57" using str_nat_digits [of d n] e by simp
  moreover have "is_ascii_digit c" if "c \<in> set ds" for c
    using str_nat_digits [of c n] e that by (simp add: is_ascii_digit_def)
  ultimately show ?thesis using e by blast
qed

lemma nat_of_digits_snoc: "nat_of_digits (ds @ [c]) = 10 * nat_of_digits ds + (c - 48)"
  by (simp add: nat_of_digits_def)

lemma nat_of_digits_str_nat: "nat_of_digits (str_nat n) = n"
proof (induction n rule: dec_rev.induct)
  case (1 n)
  show ?case
  proof (cases "n < 10")
    case True
    then have "str_nat n = [48 + n]" by (simp add: str_nat_def dec_rev.simps)
    then show ?thesis by (simp add: nat_of_digits_def)
  next
    case False
    from False have "str_nat n = str_nat (n div 10) @ [48 + n mod 10]"
      by (simp add: str_nat_def dec_rev.simps [of n])
    then show ?thesis using 1 False by (simp add: nat_of_digits_snoc)
  qed
qed

lemma num_end_digit: "num_end r \<Longrightarrow> takeWhile is_ascii_digit r = [] \<and> dropWhile is_ascii_digit r = r"
  by (cases r) (simp_all add: num_end_def)

lemma scan_int_part_str_nat:
  assumes "num_end r"
  shows "scan_int_part (str_nat n @ r) = Some (str_nat n, r)"
proof (cases "n = 0")
  case True
  then show ?thesis by (simp add: str_nat_0 scan_int_part_def)
next
  case False
  then obtain d ds where e: "str_nat n = d # ds" and d: "49 \<le> d" "d \<le> 57"
    and ds: "\<forall>c \<in> set ds. is_ascii_digit c"
    using str_nat_pos [of n] by auto
  from ds have "takeWhile is_ascii_digit (ds @ r) = ds" "dropWhile is_ascii_digit (ds @ r) = r"
    using num_end_digit [OF assms] by (simp_all add: takeWhile_append2 dropWhile_append2)
  with d show ?thesis by (simp add: e scan_int_part_def)
qed

lemma scan_frac_end: "num_end r \<Longrightarrow> scan_frac r = ([], r)"
  by (cases r) (auto simp: num_end_def scan_frac_def split: list.splits)

lemma scan_exp_end: "num_end r \<Longrightarrow> scan_exp r = ([], r)"
  by (cases r) (auto simp: num_end_def scan_exp_def)

lemma parse_number_str_int:
  assumes "num_end r"
  shows "parse_number (str_int i @ r) = Some (JInt i, r)"
proof (cases "i < 0")
  case True
  then have e: "str_int i @ r = 45 # (str_nat (nat (- i)) @ r)" by (simp add: str_int_def)
  show ?thesis
    unfolding e using True
    by (simp add: parse_number_def scan_int_part_str_nat [OF assms] scan_frac_end [OF assms]
          scan_exp_end [OF assms] nat_of_digits_str_nat)
next
  case False
  then have e: "str_int i = str_nat (nat i)" by (simp add: str_int_def)
  obtain d ds where h: "str_nat (nat i) = d # ds" "d \<noteq> 45"
    using str_nat_nonempty [of "nat i"] str_nat_digits [of _ "nat i"]
    by (cases "str_nat (nat i)") fastforce+
  have s: "(case str_nat (nat i) @ r of [] \<Rightarrow> [] | m # _ \<Rightarrow> if m = 45 then [m] else []) = []"
    using h by simp
  show ?thesis
    unfolding e using False
    by (simp add: parse_number_def s scan_int_part_str_nat [OF assms] scan_frac_end [OF assms]
          scan_exp_end [OF assms] nat_of_digits_str_nat del: append.simps)
qed


lemma str_int_first:
  "\<exists>c t. str_int i = c # t \<and> (c = 45 \<and> t \<noteq> [] \<and> is_ascii_digit (hd t) \<or> is_ascii_digit c)"
proof (cases "i < 0")
  case True
  obtain d ds where "str_nat (nat (- i)) = d # ds" "is_ascii_digit d"
    using str_nat_nonempty [of "nat (- i)"] str_nat_digits [of _ "nat (- i)"]
    by (cases "str_nat (nat (- i))") (auto simp: is_ascii_digit_def)
  with True show ?thesis by (simp add: str_int_def)
next
  case False
  obtain d ds where "str_nat (nat i) = d # ds" "is_ascii_digit d"
    using str_nat_nonempty [of "nat i"] str_nat_digits [of _ "nat i"]
    by (cases "str_nat (nat i)") (auto simp: is_ascii_digit_def)
  with False show ?thesis by (simp add: str_int_def)
qed

lemma dumps_first:
  assumes "valid_json v"
  shows "\<exists>c t. json_dumps v = c # t \<and> \<not> is_ws c \<and> c \<noteq> 93 \<and> c \<noteq> 125"
proof (cases v)
  case (JInt i)
  obtain c t where "str_int i = c # t" "c = 45 \<or> is_ascii_digit c"
    using str_int_first [of i] by auto
  then show ?thesis using JInt by (auto simp: is_ws_def is_ascii_digit_def)
next
  case (JFloat t)
  with assms show ?thesis by simp
qed (auto simp: lit_def is_ws_def dumps_str_def)

lemma skip_ws_first: "\<not> is_ws c \<Longrightarrow> skip_ws (c # t) = c # t"
  by (simp add: skip_ws_def)

lemma skip_ws_dumps:
  assumes "valid_json v"
  shows "skip_ws (json_dumps v @ r) = json_dumps v @ r"
proof -
  obtain c t where "json_dumps v = c # t" "\<not> is_ws c" using dumps_first [OF assms] by blast
  then show ?thesis by (simp add: skip_ws_first)
qed

lemma join_comma_first:
  "xs \<noteq> [] \<Longrightarrow> hd xs = c # t \<Longrightarrow> \<exists>t'. join_comma xs = c # t'"
  by (induction xs rule: join_comma.induct) simp_all

lemma length_join_comma_Cons: "length x \<le> length (join_comma (x # xs))"
  by (cases xs) simp_all

lemma parse_value_str_int:
  "parse_value (Suc n) (str_int i @ r) = parse_number (str_int i @ r)"
proof -
  obtain c t where e: "str_int i = c # t"
    and c: "c = 45 \<and> t \<noteq> [] \<and> is_ascii_digit (hd t) \<or> is_ascii_digit c"
    using str_int_first [of i] by blast
  show ?thesis
  proof (cases "is_ascii_digit c")
    case True
    then show ?thesis
      unfolding e by (simp add: starts_with_def lit_def is_ascii_digit_def parse_atom_def)
  next
    case False
    with c obtain d u where t: "t = d # u" "is_ascii_digit d" "c = 45" by (cases t) auto
    then show ?thesis
      unfolding e by (auto simp: starts_with_def lit_def is_ascii_digit_def parse_atom_def)
  qed
qed

lemma dict_set_fresh: "k \<notin> fst ` set d \<Longrightarrow> dict_set d k v = d @ [(k, v)]"
  by (induction d) auto

lemma dict_fold_distinct:
  "distinct (map fst (acc @ ps)) \<Longrightarrow>
   foldl (\<lambda>d (k, v). dict_set d k v) acc ps = acc @ ps"
proof (induction ps arbitrary: acc)
  case Nil
  then show ?case by simp
next
  case (Cons p ps)
  obtain k v where p: "p = (k, v)" by (cases p)
  from Cons.prems have "k \<notin> fst ` set acc" by (auto simp: p)
  then have "dict_set acc k v = acc @ [(k, v)]" by (rule dict_set_fresh)
  moreover from Cons.prems have "distinct (map fst ((acc @ [(k, v)]) @ ps))" by (simp add: p)
  ultimately show ?case using Cons.IH [of "acc @ [(k, v)]"] by (simp add: p)
qed

lemma dict_of_pairs_distinct: "distinct (map fst kvs) \<Longrightarrow> dict_of_pairs kvs = kvs"
  using dict_fold_distinct [of "[]" kvs] by (simp add: dict_of_pairs_def)


lemma num_end_delims: "num_end (93 # r)" "num_end (125 # r)" "num_end (44 # r)" "num_end []"
  by (simp_all add: num_end_def is_ascii_digit_def)

lemma parse_array_join:
  assumes "\<And>x n r. x \<in> set xs \<Longrightarrow> 2 * length (json_dumps x) < n \<Longrightarrow> num_end r \<Longrightarrow>
             parse_value n (json_dumps x @ r) = Some (x, r)"
    and "\<forall>x \<in> set xs. valid_json x"
    and "xs \<noteq> []"
    and "2 * length (join_comma (map json_dumps xs)) + 1 < n"
  shows "parse_array n (join_comma (map json_dumps xs) @ 93 # r) = Some (xs, r)"
  using assms
proof (induction xs arbitrary: n rule: induct_list012)
  case 1
  then show ?case by simp
next
  case (2 x)
  from "2.prems"(4) obtain k where n: "n = Suc k" and k: "2 * length (json_dumps x) < k"
    by (cases n) auto
  have "parse_value k (json_dumps x @ 93 # r) = Some (x, 93 # r)"
    using "2.prems"(1) [of x k "93 # r"] k by (simp add: num_end_delims)
  then show ?case
    by (simp add: n skip_ws_first is_ws_def starts_with_def)
next
  case (3 x y zs)
  define rest where "rest = join_comma (map json_dumps (y # zs)) @ 93 # r"
  have j: "join_comma (map json_dumps (x # y # zs)) @ 93 # r = json_dumps x @ 44 # 32 # rest"
    by (simp add: rest_def)
  have l: "length (join_comma (map json_dumps (x # y # zs))) =
           length (json_dumps x) + 2 + length (join_comma (map json_dumps (y # zs)))"
    by simp
  from "3.prems"(4) obtain k where n: "n = Suc k"
    and k1: "2 * length (json_dumps x) < k"
    and k2: "2 * length (join_comma (map json_dumps (y # zs))) + 1 < k"
    unfolding l by (cases n) auto
  have pv: "parse_value k (json_dumps x @ 44 # 32 # rest) = Some (x, 44 # 32 # rest)"
    using "3.prems"(1) [of x k "44 # 32 # rest"] k1 by (simp add: num_end_delims)
  obtain c t where "json_dumps y = c # t" "\<not> is_ws c"
    using dumps_first [of y] "3.prems"(2) by auto
  then obtain t' where "rest = c # t'" by (simp add: rest_def) (cases zs; simp)
  with \<open>\<not> is_ws c\<close> have sk: "skip_ws (32 # rest) = rest"
    by (simp add: skip_ws_def is_ws_def)
  have pa: "parse_array k rest = Some (y # zs, r)"
    unfolding rest_def
  proof (rule "3.IH"(2))
    show "parse_value n (json_dumps x @ r) = Some (x, r)"
      if "x \<in> set (y # zs)" "2 * length (json_dumps x) < n" "num_end r" for x n r
      using "3.prems"(1) [of x n r] that by simp
    show "\<forall>x\<in>set (y # zs). valid_json x" using "3.prems"(2) by simp
    show "y # zs \<noteq> []" by simp
    show "2 * length (join_comma (map json_dumps (y # zs))) + 1 < k" by (rule k2)
  qed
  show ?case
    unfolding j n
    by (simp add: pv skip_ws_first is_ws_def starts_with_def sk pa del: join_comma.simps)
qed

text \<open>One item of a dictionary as \<open>json.dumps\<close> prints it.\<close>

definition dumps_item :: "pystr \<times> json \<Rightarrow> pystr" where
  "dumps_item kv = dumps_str (fst kv) @ [58, 32] @ json_dumps (snd kv)"

lemma parse_object_item:
  assumes pv: "\<And>n r. 2 * length (json_dumps v) < n \<Longrightarrow> num_end r \<Longrightarrow>
             parse_value n (json_dumps v @ r) = Some (v, r)"
    and "valid_json v" "text_ok k" "2 * length (dumps_item (k, v)) < n" "num_end r"
  shows "scan_string (drop 1 (dumps_item (k, v) @ r)) = Some (k, 58 # 32 # json_dumps v @ r)"
    and "parse_value n (skip_ws (32 # json_dumps v @ r)) = Some (v, r)"
proof -
  have "drop 1 (dumps_item (k, v) @ r) = tl (dumps_str k) @ 58 # 32 # json_dumps v @ r"
    by (simp add: dumps_item_def dumps_str_def)
  then show "scan_string (drop 1 (dumps_item (k, v) @ r)) = Some (k, 58 # 32 # json_dumps v @ r)"
    using scan_string_dumps_str [OF assms(3)] by simp
  have "skip_ws (32 # json_dumps v @ r) = json_dumps v @ r"
    using skip_ws_dumps [OF assms(2), of r] by (simp add: skip_ws_def is_ws_def)
  moreover have "2 * length (json_dumps v) < n" using assms(4) by (simp add: dumps_item_def)
  ultimately show "parse_value n (skip_ws (32 # json_dumps v @ r)) = Some (v, r)"
    using pv assms(5) by simp
qed

lemma dumps_item_first: "\<exists>t. dumps_item kv = 34 # t"
  by (simp add: dumps_item_def dumps_str_def)

lemma parse_object_step:
  assumes "starts_with s [34]"
    and "scan_string (drop 1 s) = Some (k, 58 # 32 # u)"
    and "parse_value m (skip_ws (32 # u)) = Some (v, r')"
  shows "parse_object (Suc m) s =
     (if starts_with (skip_ws r') [125] then Some ([(k, v)], drop 1 (skip_ws r'))
      else if starts_with (skip_ws r') [44] then
        (case parse_object m (skip_ws (drop 1 (skip_ws r'))) of
           None \<Rightarrow> None
         | Some (kvs, r'') \<Rightarrow> Some ((k, v) # kvs, r''))
      else None)"
proof -
  have a: "skip_ws (58 # 32 # u) = 58 # 32 # u" by (simp add: skip_ws_first is_ws_def)
  have b: "starts_with (58 # 32 # u) [58]" by (simp add: starts_with_def)
  have c: "drop 1 (58 # 32 # u) = 32 # u" by simp
  show ?thesis
    by (simp only: parse_object.simps assms if_True option.case prod.case a b c)
qed

lemma parse_object_join:
  assumes "\<And>k v n r. (k, v) \<in> set kvs \<Longrightarrow> 2 * length (json_dumps v) < n \<Longrightarrow> num_end r \<Longrightarrow>
             parse_value n (json_dumps v @ r) = Some (v, r)"
    and "\<forall>kv \<in> set kvs. text_ok (fst kv) \<and> valid_json (snd kv)"
    and "kvs \<noteq> []"
    and "2 * length (join_comma (map dumps_item kvs)) + 1 < n"
  shows "parse_object n (join_comma (map dumps_item kvs) @ 125 # r) = Some (kvs, r)"
  using assms
proof (induction kvs arbitrary: n rule: induct_list012)
  case 1
  then show ?case by simp
next
  case (2 kv)
  obtain k v where kv: "kv = (k, v)" by (cases kv)
  from "2.prems"(4) obtain m where n: "n = Suc m" and m: "2 * length (dumps_item (k, v)) < m"
    by (cases n) (auto simp: kv)
  obtain t where f: "dumps_item (k, v) = 34 # t" using dumps_item_first by blast
  have it: "scan_string (drop 1 (dumps_item (k, v) @ 125 # r)) = Some (k, 58 # 32 # json_dumps v @ 125 # r)"
    "parse_value m (skip_ws (32 # json_dumps v @ 125 # r)) = Some (v, 125 # r)"
    using parse_object_item [of v k m "125 # r"] "2.prems"(1) [of k v] "2.prems"(2) m
    by (simp_all add: kv num_end_delims)
  have sw: "starts_with (dumps_item (k, v) @ 125 # r) [34]" by (simp add: f starts_with_def)
  have "parse_object (Suc m) (dumps_item (k, v) @ 125 # r) = Some ([(k, v)], r)"
    by (subst parse_object_step [OF sw it]) (simp add: skip_ws_first is_ws_def starts_with_def)
  then show ?case by (simp add: n kv)
next
  case (3 kv y zs)
  obtain k v where kv: "kv = (k, v)" by (cases kv)
  define rest where "rest = join_comma (map dumps_item (y # zs)) @ 125 # r"
  have j: "join_comma (map dumps_item (kv # y # zs)) @ 125 # r = dumps_item (k, v) @ 44 # 32 # rest"
    by (simp add: rest_def kv)
  have l: "length (join_comma (map dumps_item (kv # y # zs))) =
           length (dumps_item (k, v)) + 2 + length (join_comma (map dumps_item (y # zs)))"
    by (simp add: kv)
  from "3.prems"(4) obtain m where n: "n = Suc m"
    and m1: "2 * length (dumps_item (k, v)) < m"
    and m2: "2 * length (join_comma (map dumps_item (y # zs))) + 1 < m"
    unfolding l by (cases n) auto
  obtain t where f: "dumps_item (k, v) = 34 # t" using dumps_item_first by blast
  have it: "scan_string (drop 1 (dumps_item (k, v) @ 44 # 32 # rest)) =
              Some (k, 58 # 32 # json_dumps v @ 44 # 32 # rest)"
    "parse_value m (skip_ws (32 # json_dumps v @ 44 # 32 # rest)) = Some (v, 44 # 32 # rest)"
    using parse_object_item [of v k m "44 # 32 # rest"] "3.prems"(1) [of k v] "3.prems"(2) m1
    by (simp_all add: kv num_end_delims)
  have sw: "starts_with (dumps_item (k, v) @ 44 # 32 # rest) [34]" by (simp add: f starts_with_def)
  obtain t' where "rest = 34 # t'"
    using dumps_item_first [of y] by (auto simp: rest_def) (cases zs; simp)
  then have sk: "skip_ws (32 # rest) = rest" by (simp add: skip_ws_def is_ws_def)
  have po: "parse_object m rest = Some (y # zs, r)"
    unfolding rest_def
  proof (rule "3.IH"(2))
    show "parse_value n (json_dumps v @ r) = Some (v, r)"
      if "(k, v) \<in> set (y # zs)" "2 * length (json_dumps v) < n" "num_end r" for k v n r
      using "3.prems"(1) [of k v n r] that by simp
    show "\<forall>kv\<in>set (y # zs). text_ok (fst kv) \<and> valid_json (snd kv)" using "3.prems"(2) by simp
    show "y # zs \<noteq> []" by simp
    show "2 * length (join_comma (map dumps_item (y # zs))) + 1 < m" by (rule m2)
  qed
  have "parse_object (Suc m) (dumps_item (k, v) @ 44 # 32 # rest) = Some ((k, v) # y # zs, r)"
    by (subst parse_object_step [OF sw it])
      (simp add: skip_ws_first is_ws_def starts_with_def sk po)
  then show ?case unfolding j n by (simp add: kv)
qed


lemma parse_value_dumps:
  "valid_json v \<Longrightarrow> 2 * length (json_dumps v) < n \<Longrightarrow> num_end r \<Longrightarrow>
   parse_value n (json_dumps v @ r) = Some (v, r)"
proof (induction v arbitrary: n r)
  case JNull
  then obtain k where "n = Suc k" by (cases n) auto
  then show ?case by (simp add: lit_def starts_with_def parse_atom_def)
next
  case (JBool b)
  then obtain k where "n = Suc k" by (cases n) auto
  then show ?case by (simp add: lit_def starts_with_def parse_atom_def)
next
  case (JInt i)
  then obtain k where "n = Suc k" by (cases n) auto
  then show ?case
    using parse_value_str_int [of k i r] parse_number_str_int [OF JInt.prems(3), of i] by simp
next
  case (JFloat t)
  then show ?case by simp
next
  case (JStr x)
  then obtain k where n: "n = Suc k" by (cases n) auto
  have e: "json_dumps (JStr x) @ r = 34 # (tl (dumps_str x) @ r)" by (simp add: dumps_str_def)
  from JStr.prems(1) have "scan_string (tl (dumps_str x) @ r) = Some (x, r)"
    by (simp add: scan_string_dumps_str)
  then show ?case unfolding e n by simp
next
  case (JList xs)
  define js where "js = join_comma (map json_dumps xs)"
  have e: "json_dumps (JList xs) @ r = 91 # (js @ 93 # r)" by (simp add: js_def)
  from JList.prems(2) obtain k where n: "n = Suc k" and k: "2 * length js + 1 < k"
    by (cases n) (auto simp: js_def)
  show ?case
  proof (cases "xs = []")
    case True
    then show ?thesis
      unfolding e n by (simp add: js_def skip_ws_first is_ws_def starts_with_def)
  next
    case False
    from JList.prems(1) have v: "\<forall>x \<in> set xs. valid_json x" by (simp add: list_all_iff)
    have pa: "parse_array k (js @ 93 # r) = Some (xs, r)"
      unfolding js_def
    proof (rule parse_array_join)
      show "parse_value n (json_dumps x @ r) = Some (x, r)"
        if "x \<in> set xs" "2 * length (json_dumps x) < n" "num_end r" for x n r
        using JList.IH [OF that(1) _ that(2, 3)] v that(1) by simp
      show "\<forall>x\<in>set xs. valid_json x" by (rule v)
      show "xs \<noteq> []" by (rule False)
      show "2 * length (join_comma (map json_dumps xs)) + 1 < k" using k by (simp add: js_def)
    qed
    obtain c t where "json_dumps (hd xs) = c # t" "\<not> is_ws c" "c \<noteq> 93"
      using dumps_first [of "hd xs"] v False by auto
    moreover have "hd (map json_dumps xs) = json_dumps (hd xs)" using False by (simp add: hd_map)
    ultimately obtain t' where f: "js = c # t'"
      using join_comma_first [of "map json_dumps xs" c t] False by (auto simp: js_def)
    have sk: "skip_ws (js @ 93 # r) = js @ 93 # r"
      using \<open>\<not> is_ws c\<close> by (simp add: f skip_ws_first)
    have ns: "\<not> starts_with (js @ 93 # r) [93]"
      using \<open>c \<noteq> 93\<close> by (simp add: f starts_with_def)
    show ?thesis unfolding e n by (simp add: sk ns pa)
  qed
next
  case (JDict kvs)
  define js where "js = join_comma (map dumps_item kvs)"
  have jd: "json_dumps (JDict kvs) = 123 # js @ [125]"
  proof -
    have "dumps_item = (\<lambda>p. dumps_str (fst p) @ 58 # 32 # json_dumps (snd p))"
      by (simp add: fun_eq_iff dumps_item_def)
    then show ?thesis by (simp add: js_def case_prod_unfold)
  qed
  have e: "json_dumps (JDict kvs) @ r = 123 # (js @ 125 # r)"
    unfolding jd by simp
  from JDict.prems(2) obtain k where n: "n = Suc k" and k: "2 * length js + 1 < k"
    unfolding jd by (cases n) auto
  show ?case
  proof (cases "kvs = []")
    case True
    then show ?thesis
      unfolding e n by (simp add: js_def skip_ws_first is_ws_def starts_with_def dict_of_pairs_def)
  next
    case False
    from JDict.prems(1) have v: "\<forall>kv \<in> set kvs. text_ok (fst kv) \<and> valid_json (snd kv)"
      and d: "distinct (map fst kvs)"
      by (simp_all add: list_all_iff)
    have po: "parse_object k (js @ 125 # r) = Some (kvs, r)"
      unfolding js_def
    proof (rule parse_object_join)
      show "parse_value n (json_dumps v @ r) = Some (v, r)"
        if "(k, v) \<in> set kvs" "2 * length (json_dumps v) < n" "num_end r" for k v n r
      proof -
        from that(1) v have "valid_json v" by auto
        moreover have "v \<in> Basic_BNFs.snds (k, v)" by simp
        ultimately show ?thesis using JDict.IH [OF that(1) _ _ that(2, 3)] by blast
      qed
      show "\<forall>kv\<in>set kvs. text_ok (fst kv) \<and> valid_json (snd kv)" by (rule v)
      show "kvs \<noteq> []" by (rule False)
      show "2 * length (join_comma (map dumps_item kvs)) + 1 < k" using k by (simp add: js_def)
    qed
    obtain t where "dumps_item (hd kvs) = 34 # t" using dumps_item_first by blast
    moreover have "hd (map dumps_item kvs) = dumps_item (hd kvs)" using False by (simp add: hd_map)
    ultimately obtain t' where f: "js = 34 # t'"
      using join_comma_first [of "map dumps_item kvs" 34 t] False by (auto simp: js_def)
    have sk: "skip_ws (js @ 125 # r) = js @ 125 # r" by (simp add: f skip_ws_first is_ws_def)
    have ns: "\<not> starts_with (js @ 125 # r) [125]" by (simp add: f starts_with_def)
    show ?thesis unfolding e n by (simp add: sk ns po dict_of_pairs_distinct [OF d])
  qed
qed

lemma json_loads_dumps: "valid_json v \<Longrightarrow> json_loads (json_dumps v) = Some v"
proof -
  assume v: "valid_json v"
  have "skip_ws (json_dumps v) = json_dumps v" using skip_ws_dumps [OF v, of "[]"] by simp
  moreover have "parse_value (2 * length (json_dumps v) + 2) (json_dumps v @ []) = Some (v, [])"
    using v by (rule parse_value_dumps) (simp_all add: num_end_delims)
  ultimately show ?thesis by (simp add: json_loads_def skip_ws_def)
qed

text \<open>
  Outside \<open>valid_json\<close> the text read back can differ from the text printed: a string that
  holds a high and a low surrogate side by side is printed as two escapes, which are read
  back as one character.
\<close>

lemma json_loads_surrogate_pair:
  "json_loads (json_dumps (JStr [55357, 56832])) = Some (JStr [128512])"
  by code_simp

section \<open>The bound on nested calls is never what stops \<open>json_loads\<close>\<close>

lemma skip_ws_length: "length (skip_ws s) \<le> length s"
  by (simp add: skip_ws_def length_dropWhile_le)

lemma scan_string_length: "scan_string t = Some (x, r) \<Longrightarrow> length r < length t"
proof (induction t arbitrary: x r rule: scan_string.induct)
  case 1
  then show ?case by (simp add: scan_string.simps)
next
  case (2 c cs)
  show ?case
  proof (cases "c = 34")
    case True
    with "2.prems" show ?thesis by (simp add: scan_string.simps)
  next
    case n34: False
    show ?thesis
    proof (cases "c = 92")
      case False
      with n34 "2.prems" obtain t' where "scan_string cs = Some (t', r)" "\<not> c < 32"
        by (auto simp: scan_string.simps split: if_splits option.splits)
      with "2.IH"(3) [OF n34 False] show ?thesis by fastforce
    next
      case True
      with n34 "2.prems" obtain e rr where cs: "cs = e # rr"
        by (cases cs) (auto simp: scan_string.simps)
      show ?thesis
      proof (cases "e = 117")
        case u: True
        with n34 True cs "2.prems" obtain cp r' t' where
          pu: "parse_u rr = Some (cp, r')" and ss: "scan_string r' = Some (t', r)"
          by (auto simp: scan_string.simps split: option.splits)
        from "2.IH"(1) [OF n34 True cs u pu refl ss] have "length r < length r'" .
        moreover from pu have "length r' < length rr" by (rule parse_u_length)
        ultimately show ?thesis by (simp add: cs)
      next
        case nu: False
        with n34 True cs "2.prems" obtain x' t' where
          se: "simple_escape e = Some x'" and ss: "scan_string rr = Some (t', r)"
          by (auto simp: scan_string.simps split: option.splits)
        from "2.IH"(2) [OF n34 True cs nu se ss] show ?thesis by (simp add: cs)
      qed
    qed
  qed
qed

lemma scan_int_part_length: "scan_int_part s = Some (ds, r) \<Longrightarrow> length r < length s"
  by (cases s) (auto simp: scan_int_part_def less_Suc_eq_le length_dropWhile_le split: if_splits)

lemma scan_frac_length: "scan_frac s = (fr, r) \<Longrightarrow> length r \<le> length s"
  by (auto simp: scan_frac_def le_SucI length_dropWhile_le split: list.splits if_splits)

lemma scan_exp_length: "scan_exp s = (ex, r) \<Longrightarrow> length r \<le> length s"
proof (cases s)
  case Nil
  then show "scan_exp s = (ex, r) \<Longrightarrow> length r \<le> length s" by (simp add: scan_exp_def)
next
  case (Cons e t)
  assume a: "scan_exp s = (ex, r)"
  show "length r \<le> length s"
  proof (cases "r = s")
    case True
    then show ?thesis by simp
  next
    case False
    with a Cons obtain k where "r = dropWhile is_ascii_digit (drop k t)"
      by (auto simp: scan_exp_def Let_def split: if_splits)
    moreover have "length (dropWhile is_ascii_digit (drop k t)) \<le> length (drop k t)"
      by (rule length_dropWhile_le)
    ultimately show ?thesis by (simp add: Cons)
  qed
qed

lemma parse_number_length:
  assumes "parse_number s = Some (v, r)"
  shows "length r < length s"
proof -
  define sg where "sg = (case s of [] \<Rightarrow> [] | m # _ \<Rightarrow> if m = 45 then [m] else [])"
  from assms obtain ds r0 where ip: "scan_int_part (drop (length sg) s) = Some (ds, r0)"
    by (auto simp: parse_number_def sg_def Let_def split: option.splits)
  obtain fr r1 where f: "scan_frac r0 = (fr, r1)" by (cases "scan_frac r0")
  obtain ex r2 where e: "scan_exp r1 = (ex, r2)" by (cases "scan_exp r1")
  from assms ip f e have "r = r0 \<or> r = r2"
    by (auto simp: parse_number_def sg_def [symmetric] Let_def split: if_splits)
  moreover have "length r0 < length s" using scan_int_part_length [OF ip] by simp
  moreover have "length r2 \<le> length r0"
    using scan_frac_length [OF f] scan_exp_length [OF e] by simp
  ultimately show ?thesis by auto
qed

lemma starts_with_drop: "starts_with s p \<Longrightarrow> p \<noteq> [] \<Longrightarrow> length (drop (length p) s) < length s"
  using starts_with_length [of s p] by (cases s) auto

lemma parse_atom_length:
  assumes "parse_atom s = Some (v, r)"
  shows "length r < length s"
proof -
  have l: "length (lit ''null'') = 4" "length (lit ''true'') = 4" "length (lit ''false'') = 5"
    "length (lit ''NaN'') = 3" "length (lit ''Infinity'') = 8" "length (lit ''-Infinity'') = 9"
    by (simp_all add: lit_def)
  have d: "length (drop (length p) s) < length s" if "starts_with s p" "p \<noteq> []" for p
    using that by (rule starts_with_drop)
  have ne: "lit ''null'' \<noteq> []" "lit ''true'' \<noteq> []" "lit ''false'' \<noteq> []"
    "lit ''NaN'' \<noteq> []" "lit ''Infinity'' \<noteq> []" "lit ''-Infinity'' \<noteq> []"
    by (simp_all add: lit_def)
  from assms consider
      "starts_with s (lit ''null'')" "r = drop 4 s"
    | "starts_with s (lit ''true'')" "r = drop 4 s"
    | "starts_with s (lit ''false'')" "r = drop 5 s"
    | "starts_with s (lit ''NaN'')" "r = drop 3 s"
    | "starts_with s (lit ''Infinity'')" "r = drop 8 s"
    | "starts_with s (lit ''-Infinity'')" "r = drop 9 s"
    | "parse_number s = Some (v, r)"
    unfolding parse_atom_def by (auto split: if_splits)
  then show ?thesis
  proof cases
    case 1 then show ?thesis using d [OF 1(1) ne(1)] by (simp add: l)
  next
    case 2 then show ?thesis using d [OF 2(1) ne(2)] by (simp add: l)
  next
    case 3 then show ?thesis using d [OF 3(1) ne(3)] by (simp add: l)
  next
    case 4 then show ?thesis using d [OF 4(1) ne(4)] by (simp add: l)
  next
    case 5 then show ?thesis using d [OF 5(1) ne(5)] by (simp add: l)
  next
    case 6 then show ?thesis using d [OF 6(1) ne(6)] by (simp add: l)
  next
    case 7 then show ?thesis by (rule parse_number_length)
  qed
qed


lemma starts_with_drop1: "starts_with x [c] \<Longrightarrow> Suc (length (drop 1 x)) = length x"
  using starts_with_length [of x "[c]"] by (cases x) auto

lemma parse_value_Suc_same:
  "s = c # t \<Longrightarrow> c \<noteq> 123 \<Longrightarrow> c \<noteq> 91 \<Longrightarrow> parse_value (Suc n) s = parse_value (Suc m) s"
  by simp

lemma parse_value_fuel_step:
  assumes PO: "\<And>s kvs r. parse_object n s = Some (kvs, r) \<Longrightarrow>
      length r < length s \<and> (\<forall>m. 2 * (length s - length r) \<le> m \<longrightarrow> parse_object m s = Some (kvs, r))"
    and PA: "\<And>s vs r. parse_array n s = Some (vs, r) \<Longrightarrow>
      length r < length s \<and> (\<forall>m. 2 * (length s - length r) \<le> m \<longrightarrow> parse_array m s = Some (vs, r))"
    and pv: "parse_value (Suc n) s = Some (v, r)"
  shows "length r < length s \<and>
         (\<forall>m. 2 * (length s - length r) \<le> m \<longrightarrow> parse_value m s = Some (v, r))"
proof -
  from pv obtain c t where s: "s = c # t" by (cases s) auto
  have sk: "length (skip_ws t) \<le> length t" by (rule skip_ws_length)
  consider (obj) "c = 123" | (arr) "c = 91" | (leaf) "c \<noteq> 123" "c \<noteq> 91" by blast
  then show ?thesis
  proof cases
    case leaf
    have len: "length r < length s"
    proof (cases "c = 34")
      case True
      with pv s obtain x where "scan_string t = Some (x, r)"
        by (auto split: option.splits)
      then show ?thesis using scan_string_length [of t x r] by (simp add: s)
    next
      case False
      with pv s leaf have "parse_atom s = Some (v, r)" by simp
      then show ?thesis by (rule parse_atom_length)
    qed
    moreover have "parse_value m s = Some (v, r)" if "2 * (length s - length r) \<le> m" for m
    proof -
      from that len obtain m' where "m = Suc m'" by (cases m) auto
      then show ?thesis using parse_value_Suc_same [OF s leaf, of m' n] pv by simp
    qed
    ultimately show ?thesis by blast
  next
    case obj
    show ?thesis
    proof (cases "starts_with (skip_ws t) [125]")
      case True
      with pv s obj have r: "r = drop 1 (skip_ws t)" and v: "v = JDict []" by simp_all
      have len: "length r < length s"
        using starts_with_drop1 [OF True] sk by (simp add: r s)
      moreover have "parse_value m s = Some (v, r)" if "2 * (length s - length r) \<le> m" for m
      proof -
        from that len obtain m' where "m = Suc m'" by (cases m) auto
        then show ?thesis using True by (simp add: s obj r v)
      qed
      ultimately show ?thesis by blast
    next
      case False
      with pv s obj obtain kvs where po: "parse_object n (skip_ws t) = Some (kvs, r)"
        and v: "v = JDict (dict_of_pairs kvs)"
        by (auto split: option.splits)
      from PO [OF po] have l: "length r < length (skip_ws t)"
        and all: "\<And>m. 2 * (length (skip_ws t) - length r) \<le> m \<Longrightarrow>
                   parse_object m (skip_ws t) = Some (kvs, r)"
        by blast+
      have len: "length r < length s" using l sk by (simp add: s)
      moreover have "parse_value m s = Some (v, r)" if "2 * (length s - length r) \<le> m" for m
      proof -
        from that len obtain m' where m: "m = Suc m'" by (cases m) auto
        with that l sk have "2 * (length (skip_ws t) - length r) \<le> m'" by (simp add: s)
        then have "parse_object m' (skip_ws t) = Some (kvs, r)" by (rule all)
        then show ?thesis using False by (simp add: s obj m v)
      qed
      ultimately show ?thesis by blast
    qed
  next
    case arr
    show ?thesis
    proof (cases "starts_with (skip_ws t) [93]")
      case True
      with pv s arr have r: "r = drop 1 (skip_ws t)" and v: "v = JList []" by simp_all
      have len: "length r < length s"
        using starts_with_drop1 [OF True] sk by (simp add: r s)
      moreover have "parse_value m s = Some (v, r)" if "2 * (length s - length r) \<le> m" for m
      proof -
        from that len obtain m' where "m = Suc m'" by (cases m) auto
        then show ?thesis using True by (simp add: s arr r v)
      qed
      ultimately show ?thesis by blast
    next
      case False
      with pv s arr obtain xs where pa: "parse_array n (skip_ws t) = Some (xs, r)"
        and v: "v = JList xs"
        by (auto split: option.splits)
      from PA [OF pa] have l: "length r < length (skip_ws t)"
        and all: "\<And>m. 2 * (length (skip_ws t) - length r) \<le> m \<Longrightarrow>
                   parse_array m (skip_ws t) = Some (xs, r)"
        by blast+
      have len: "length r < length s" using l sk by (simp add: s)
      moreover have "parse_value m s = Some (v, r)" if "2 * (length s - length r) \<le> m" for m
      proof -
        from that len obtain m' where m: "m = Suc m'" by (cases m) auto
        with that l sk have "2 * (length (skip_ws t) - length r) \<le> m'" by (simp add: s)
        then have "parse_array m' (skip_ws t) = Some (xs, r)" by (rule all)
        then show ?thesis using False by (simp add: s arr m v)
      qed
      ultimately show ?thesis by blast
    qed
  qed
qed

lemma parse_array_fuel_step:
  assumes PV: "\<And>s v r. parse_value n s = Some (v, r) \<Longrightarrow>
      length r < length s \<and> (\<forall>m. 2 * (length s - length r) \<le> m \<longrightarrow> parse_value m s = Some (v, r))"
    and PA: "\<And>s vs r. parse_array n s = Some (vs, r) \<Longrightarrow>
      length r < length s \<and> (\<forall>m. 2 * (length s - length r) \<le> m \<longrightarrow> parse_array m s = Some (vs, r))"
    and pa: "parse_array (Suc n) s = Some (vs, r)"
  shows "length r < length s \<and>
         (\<forall>m. 2 * (length s - length r) \<le> m \<longrightarrow> parse_array m s = Some (vs, r))"
proof -
  from pa obtain v r1 where pv: "parse_value n s = Some (v, r1)"
    by (auto split: option.splits)
  from PV [OF pv] have l1: "length r1 < length s"
    and all1: "\<And>m. 2 * (length s - length r1) \<le> m \<Longrightarrow> parse_value m s = Some (v, r1)"
    by blast+
  have sk: "length (skip_ws r1) \<le> length r1" by (rule skip_ws_length)
  show ?thesis
  proof (cases "starts_with (skip_ws r1) [93]")
    case True
    with pa pv have r: "r = drop 1 (skip_ws r1)" and vs: "vs = [v]" by simp_all
    have lr: "Suc (length r) = length (skip_ws r1)" unfolding r by (rule starts_with_drop1 [OF True])
    have len: "length r < length s" using lr sk l1 by simp
    moreover have "parse_array m s = Some (vs, r)" if "2 * (length s - length r) \<le> m" for m
    proof -
      from that len obtain m' where m: "m = Suc m'" by (cases m) auto
      with that lr sk l1 have "2 * (length s - length r1) \<le> m'" by simp
      then have "parse_value m' s = Some (v, r1)" by (rule all1)
      then show ?thesis using True by (simp add: m r vs)
    qed
    ultimately show ?thesis by blast
  next
    case False
    with pa pv have c: "starts_with (skip_ws r1) [44]" by (auto split: if_splits)
    define r2 where "r2 = skip_ws (drop 1 (skip_ws r1))"
    from pa pv False c obtain vs' where pa': "parse_array n r2 = Some (vs', r)"
      and vs: "vs = v # vs'"
      by (auto simp: r2_def split: option.splits)
    from PA [OF pa'] have l2: "length r < length r2"
      and all2: "\<And>m. 2 * (length r2 - length r) \<le> m \<Longrightarrow> parse_array m r2 = Some (vs', r)"
      by blast+
    have "length r2 \<le> length (drop 1 (skip_ws r1))" unfolding r2_def by (rule skip_ws_length)
    with starts_with_drop1 [OF c] sk have l3: "length r2 < length r1" by simp
    have len: "length r < length s" using l1 l2 l3 by simp
    moreover have "parse_array m s = Some (vs, r)" if "2 * (length s - length r) \<le> m" for m
    proof -
      from that len obtain m' where m: "m = Suc m'" by (cases m) auto
      with that l1 l2 l3 have "2 * (length s - length r1) \<le> m'" "2 * (length r2 - length r) \<le> m'"
        by simp_all
      then have "parse_value m' s = Some (v, r1)" "parse_array m' r2 = Some (vs', r)"
        using all1 all2 by blast+
      then show ?thesis using False c by (simp add: m vs r2_def)
    qed
    ultimately show ?thesis by blast
  qed
qed

lemma parse_object_fuel_step:
  assumes PV: "\<And>s v r. parse_value n s = Some (v, r) \<Longrightarrow>
      length r < length s \<and> (\<forall>m. 2 * (length s - length r) \<le> m \<longrightarrow> parse_value m s = Some (v, r))"
    and PO: "\<And>s kvs r. parse_object n s = Some (kvs, r) \<Longrightarrow>
      length r < length s \<and> (\<forall>m. 2 * (length s - length r) \<le> m \<longrightarrow> parse_object m s = Some (kvs, r))"
    and po: "parse_object (Suc n) s = Some (kvs, r)"
  shows "length r < length s \<and>
         (\<forall>m. 2 * (length s - length r) \<le> m \<longrightarrow> parse_object m s = Some (kvs, r))"
proof -
  from po have q: "starts_with s [34]" by (auto split: if_splits)
  with po obtain k r0 where ss: "scan_string (drop 1 s) = Some (k, r0)"
    by (auto split: option.splits)
  from po q ss have colon: "starts_with (skip_ws r0) [58]" by (auto split: if_splits)
  define r0' where "r0' = skip_ws (drop 1 (skip_ws r0))"
  from po q ss colon obtain v r1 where pv: "parse_value n r0' = Some (v, r1)"
    by (auto simp: r0'_def split: option.splits)
  have l0: "length r0 < length s"
    using scan_string_length [OF ss] by simp
  have "length r0' \<le> length (drop 1 (skip_ws r0))" unfolding r0'_def by (rule skip_ws_length)
  with starts_with_drop1 [OF colon] skip_ws_length [of r0] have l0': "length r0' < length r0" by simp
  from PV [OF pv] have l1: "length r1 < length r0'"
    and all1: "\<And>m. 2 * (length r0' - length r1) \<le> m \<Longrightarrow> parse_value m r0' = Some (v, r1)"
    by blast+
  have sk: "length (skip_ws r1) \<le> length r1" by (rule skip_ws_length)
  show ?thesis
  proof (cases "starts_with (skip_ws r1) [125]")
    case True
    with po q ss colon pv have r: "r = drop 1 (skip_ws r1)" and kvs: "kvs = [(k, v)]"
      by (simp_all add: r0'_def)
    have lr: "Suc (length r) = length (skip_ws r1)" unfolding r by (rule starts_with_drop1 [OF True])
    have len: "length r < length s" using lr sk l1 l0' l0 by simp
    moreover have "parse_object m s = Some (kvs, r)" if "2 * (length s - length r) \<le> m" for m
    proof -
      from that len obtain m' where m: "m = Suc m'" by (cases m) auto
      with that lr sk l1 l0' l0 have "2 * (length r0' - length r1) \<le> m'" by simp
      then have "parse_value m' r0' = Some (v, r1)" by (rule all1)
      then show ?thesis using True q ss colon by (simp add: m r kvs r0'_def)
    qed
    ultimately show ?thesis by blast
  next
    case False
    with po q ss colon pv have c: "starts_with (skip_ws r1) [44]"
      by (auto simp: r0'_def split: if_splits)
    define r2 where "r2 = skip_ws (drop 1 (skip_ws r1))"
    from po q ss colon pv False c obtain kvs' where po': "parse_object n r2 = Some (kvs', r)"
      and kvs: "kvs = (k, v) # kvs'"
      by (auto simp: r2_def r0'_def split: option.splits)
    from PO [OF po'] have l2: "length r < length r2"
      and all2: "\<And>m. 2 * (length r2 - length r) \<le> m \<Longrightarrow> parse_object m r2 = Some (kvs', r)"
      by blast+
    have "length r2 \<le> length (drop 1 (skip_ws r1))" unfolding r2_def by (rule skip_ws_length)
    with starts_with_drop1 [OF c] sk have l3: "length r2 < length r1" by simp
    have len: "length r < length s" using l0 l0' l1 l2 l3 by simp
    moreover have "parse_object m s = Some (kvs, r)" if "2 * (length s - length r) \<le> m" for m
    proof -
      from that len obtain m' where m: "m = Suc m'" by (cases m) auto
      with that l0 l0' l1 l2 l3
      have "2 * (length r0' - length r1) \<le> m'" "2 * (length r2 - length r) \<le> m'"
        by simp_all
      then have "parse_value m' r0' = Some (v, r1)" "parse_object m' r2 = Some (kvs', r)"
        using all1 all2 by blast+
      then show ?thesis using False c q ss colon by (simp add: m kvs r2_def r0'_def)
    qed
    ultimately show ?thesis by blast
  qed
qed

lemma fuel_adequate:
  "(\<forall>s v r. parse_value n s = Some (v, r) \<longrightarrow>
      length r < length s \<and> (\<forall>m. 2 * (length s - length r) \<le> m \<longrightarrow> parse_value m s = Some (v, r))) \<and>
   (\<forall>s vs r. parse_array n s = Some (vs, r) \<longrightarrow>
      length r < length s \<and> (\<forall>m. 2 * (length s - length r) \<le> m \<longrightarrow> parse_array m s = Some (vs, r))) \<and>
   (\<forall>s kvs r. parse_object n s = Some (kvs, r) \<longrightarrow>
      length r < length s \<and> (\<forall>m. 2 * (length s - length r) \<le> m \<longrightarrow> parse_object m s = Some (kvs, r)))"
proof (induction n)
  case 0
  show ?case by simp
next
  case (Suc n)
  then have PV: "\<And>s v r. parse_value n s = Some (v, r) \<Longrightarrow>
      length r < length s \<and> (\<forall>m. 2 * (length s - length r) \<le> m \<longrightarrow> parse_value m s = Some (v, r))"
    and PA: "\<And>s vs r. parse_array n s = Some (vs, r) \<Longrightarrow>
      length r < length s \<and> (\<forall>m. 2 * (length s - length r) \<le> m \<longrightarrow> parse_array m s = Some (vs, r))"
    and PO: "\<And>s kvs r. parse_object n s = Some (kvs, r) \<Longrightarrow>
      length r < length s \<and> (\<forall>m. 2 * (length s - length r) \<le> m \<longrightarrow> parse_object m s = Some (kvs, r))"
    by blast+
  show ?case
    using parse_value_fuel_step [OF PO PA] parse_array_fuel_step [OF PV PA] parse_object_fuel_step [OF PV PO]
    by blast
qed

text \<open>
  Whatever number of nested calls lets the scanner read a value from a text, the number
  \<open>json_loads\<close> starts with does too: \<open>json_loads\<close> answers \<open>None\<close> only for a text that is
  not a JSON document.
\<close>

lemma json_loads_complete:
  assumes "parse_value n (skip_ws s) = Some (v, r)" "skip_ws r = []"
  shows "json_loads s = Some v"
proof -
  have "2 * (length (skip_ws s) - length r) \<le> 2 * length s + 2"
    using skip_ws_length [of s] by simp
  with assms(1) fuel_adequate [of n]
  have "parse_value (2 * length s + 2) (skip_ws s) = Some (v, r)" by blast
  with assms(2) show ?thesis by (simp add: json_loads_def)
qed

section \<open>Frames through the reader\<close>

text \<open>The header \<open>encode_lsp\<close> writes for a body of \<open>n\<close> characters, and a framed body.\<close>

definition header :: "nat \<Rightarrow> pystr" where
  "header n = lit ''Content-Length: '' @ str_nat n @ [13, 10, 13, 10]"

definition frame :: "pystr \<Rightarrow> pystr" where
  "frame body = header (length body) @ body"

lemma encode_lsp_frame: "encode_lsp m = frame (json_dumps m)"
  by (simp add: encode_lsp_def frame_def header_def Let_def)

subsection \<open>The header is found\<close>

lemma lit_CL: "lit ''Content-Length: '' = [67, 111, 110, 116, 101, 110, 116, 45, 76, 101, 110, 103, 116, 104, 58, 32]"
  by (simp add: lit_def)

lemma length_CL: "length (lit ''Content-Length: '') = 16"
  by (simp add: lit_def)

lemma length_header: "length (header n) = 20 + length (str_nat n)"
  by (simp add: header_def length_CL)

lemma match_here_header:
  "match_here nd (header n @ rest) = Some (str_nat n, length (header n))"
proof -
  let ?s = "header n @ rest"
  have sw: "starts_with ?s (lit ''Content-Length: '')"
    by (simp add: starts_with_def header_def)
  have d16: "drop 16 ?s = str_nat n @ [13, 10, 13, 10] @ rest"
    by (simp add: header_def length_CL)
  have nd13: "\<not> is_digit nd 13" by (simp add: is_digit_def digit_val_def)
  have tw: "takeWhile (is_digit nd) (drop 16 ?s) = str_nat n"
    unfolding d16 by (rule takeWhile_digits_str_nat) (simp add: nd13)
  have dr: "drop (16 + length (str_nat n)) ?s = [13, 10, 13, 10] @ rest"
    by (simp add: header_def length_CL)
  have e1: "match_eol ([13, 10, 13, 10] @ rest) = Some 2"
    by (simp add: match_eol_def starts_with_def)
  have e2: "match_eol (drop 2 ([13, 10, 13, 10] @ rest)) = Some 2"
    by (simp add: match_eol_def starts_with_def)
  have "match_here nd ?s = Some (str_nat n, 16 + length (str_nat n) + 2 + 2)"
    by (simp only: match_here_def Let_def tw dr sw if_True str_nat_nonempty if_False e1
          option.case e2)
  then show ?thesis by (simp add: length_header)
qed

lemma header_nonempty: "header n \<noteq> []"
  by (simp add: header_def lit_CL)

lemma re_search_header:
  "re_search nd (header n @ rest) = Some (str_nat n, length (header n))"
proof -
  obtain c cs where "header n @ rest = c # cs" using header_nonempty by (cases "header n @ rest") auto
  then show ?thesis using match_here_header [of nd n rest] by simp
qed


subsection \<open>A match holds two line feeds\<close>

lemma count_list_drop: "count_list (drop k s) x \<le> count_list s x"
proof -
  have "count_list s x = count_list (take k s) x + count_list (drop k s) x"
    by (metis append_take_drop_id count_list_append)
  then show ?thesis by simp
qed

lemma match_eol_count:
  assumes "match_eol r = Some a"
  shows "Suc (count_list (drop a r) 10) \<le> count_list r 10"
proof (cases "starts_with r [13, 10]")
  case True
  then have "take 2 r = [13, 10]" by (simp add: starts_with_def numeral_2_eq_2)
  then have r: "r = [13, 10] @ drop 2 r" by (metis append_take_drop_id)
  from True assms have a: "a = 2" by (simp add: match_eol_def)
  have "count_list r 10 = count_list ([13, 10] @ drop 2 r) 10" using r by simp
  then show ?thesis unfolding a by (simp del: append.simps add: count_list_append)
next
  case False
  with assms have sw: "starts_with r [10]" and a: "a = 1"
    by (auto simp: match_eol_def split: if_splits)
  then have "take 1 r = [10]" by (simp add: starts_with_def)
  then have r: "r = [10] @ drop 1 r" by (metis append_take_drop_id)
  have "count_list r 10 = count_list ([10] @ drop 1 r) 10" using r by simp
  then show ?thesis unfolding a by (simp del: append.simps add: count_list_append)
qed

lemma match_here_count:
  assumes "match_here nd s = Some (g, e)"
  shows "2 \<le> count_list s 10"
proof -
  define ds where "ds = takeWhile (is_digit nd) (drop 16 s)"
  define r where "r = drop (16 + length ds) s"
  from assms obtain a b where a: "match_eol r = Some a" and b: "match_eol (drop a r) = Some b"
    by (auto simp: match_here_def Let_def ds_def r_def split: if_splits option.splits)
  have "Suc 0 \<le> count_list (drop a r) 10" using match_eol_count [OF b] by simp
  moreover have "Suc (count_list (drop a r) 10) \<le> count_list r 10" by (rule match_eol_count [OF a])
  moreover have "count_list r 10 \<le> count_list s 10" unfolding r_def by (rule count_list_drop)
  ultimately show ?thesis by simp
qed

lemma re_search_count: "re_search nd s = Some (g, e) \<Longrightarrow> 2 \<le> count_list s 10"
proof (induction s arbitrary: e)
  case Nil
  then show ?case by simp
next
  case (Cons c cs)
  show ?case
  proof (cases "match_here nd (c # cs)")
    case (Some m)
    with Cons.prems have "match_here nd (c # cs) = Some (g, e)" by simp
    then show ?thesis by (rule match_here_count)
  next
    case None
    with Cons.prems obtain e' where "re_search nd cs = Some (g, e')"
      by (auto split: option.splits)
    with Cons.IH [of e'] show ?thesis by simp
  qed
qed

lemma count_str_nat_lf: "count_list (str_nat n) 10 = 0"
proof -
  have "10 \<notin> set (str_nat n)" using str_nat_digits [of 10 n] by auto
  then show ?thesis by (simp add: count_list_0_iff)
qed

lemma header_prefix_count:
  assumes "k < length (header n)"
  shows "count_list (take k (header n)) 10 \<le> 1"
proof -
  define pre where "pre = lit ''Content-Length: '' @ str_nat n @ [13, 10, 13]"
  have h: "header n = pre @ [10]" by (simp add: pre_def header_def)
  from assms have "k \<le> length pre" by (simp add: h)
  then have "take k (header n) = take k pre" by (simp add: h)
  moreover have "count_list pre 10 = count_list (take k pre) 10 + count_list (drop k pre) 10"
    by (metis append_take_drop_id count_list_append)
  moreover have "count_list pre 10 = 1"
    by (simp add: pre_def count_list_append count_str_nat_lf lit_CL)
  ultimately show ?thesis by simp
qed

lemma re_search_header_prefix:
  assumes "k < length (header n)"
  shows "re_search nd (take k (header n)) = None"
proof (cases "re_search nd (take k (header n))")
  case None
  then show ?thesis .
next
  case (Some m)
  obtain g e where "m = (g, e)" by (cases m)
  with Some have "2 \<le> count_list (take k (header n)) 10" using re_search_count by blast
  with header_prefix_count [OF assms] show ?thesis by simp
qed

subsection \<open>The loop on one frame\<close>

lemma decode_loop_no_match: "re_search nd b = None \<Longrightarrow> decode_loop nd b q = (b, q)"
  by (subst decode_loop.simps) simp

lemma decode_loop_short:
  "re_search nd b = Some (g, e) \<Longrightarrow> length b < e + int_of_digits nd g \<Longrightarrow>
   decode_loop nd b q = (b, q)"
  by (subst decode_loop.simps) simp

lemma decode_loop_Nil: "decode_loop nd [] q = ([], q)"
  by (subst decode_loop.simps) (simp add: lit_def)

lemma read_from_snoc: "read_from nd st (xs @ [x]) = read_step nd (read_from nd st xs) x"
  by (simp add: read_from_def)

lemma read_from_append: "read_from nd st (xs @ ys) = read_from nd (read_from nd st xs) ys"
  by (simp add: read_from_def)

lemma read_from_idle:
  "(\<And>k. 0 < k \<Longrightarrow> k \<le> length xs \<Longrightarrow>
        decode_loop nd (b @ take k xs) q = (b @ take k xs, q)) \<Longrightarrow>
   read_from nd (b, q) xs = (b @ xs, q)"
proof (induction xs rule: rev_induct)
  case Nil
  then show ?case by (simp add: read_from_def)
next
  case (snoc x xs)
  have "read_from nd (b, q) xs = (b @ xs, q)"
  proof (rule snoc.IH)
    fix k assume "0 < k" "k \<le> length xs"
    then show "decode_loop nd (b @ take k xs) q = (b @ take k xs, q)"
      using snoc.prems [of k] by simp
  qed
  moreover have "decode_loop nd (b @ xs @ [x]) q = (b @ xs @ [x], q)"
    using snoc.prems [of "Suc (length xs)"] by simp
  ultimately show ?case by (simp add: read_from_snoc read_step_def)
qed

lemma read_from_last:
  assumes "xs \<noteq> []"
    and "\<And>k. 0 < k \<Longrightarrow> k < length xs \<Longrightarrow>
           decode_loop nd (b @ take k xs) q = (b @ take k xs, q)"
  shows "read_from nd (b, q) xs = decode_loop nd (b @ xs) q"
proof -
  from assms(1) obtain ys y where xs: "xs = ys @ [y]" by (metis rev_exhaust)
  have "read_from nd (b, q) ys = (b @ ys, q)"
  proof (rule read_from_idle)
    fix k assume "0 < k" "k \<le> length ys"
    then show "decode_loop nd (b @ take k ys) q = (b @ take k ys, q)"
      using assms(2) [of k] by (simp add: xs)
  qed
  then show ?thesis by (simp add: xs read_from_snoc read_step_def)
qed

text \<open>What one frame adds to the queue: its body decoded, or nothing when decoding raises.\<close>

definition decoded :: "pystr \<Rightarrow> json list" where
  "decoded body = (case json_loads body of Some v \<Rightarrow> [v] | None \<Rightarrow> [])"

lemma decode_loop_frame: "decode_loop nd (frame body) q = ([], q @ decoded body)"
proof -
  have c: "contains (frame body) (lit ''Content-Length:'')"
  proof -
    obtain c cs where f: "frame body = c # cs"
      using header_nonempty [of "length body"] by (cases "frame body") (auto simp: frame_def)
    have "starts_with (frame body) (lit ''Content-Length:'')"
      by (simp add: frame_def header_def starts_with_def lit_def)
    then show ?thesis unfolding f by simp
  qed
  have r: "re_search nd (frame body) = Some (str_nat (length body), length (header (length body)))"
    unfolding frame_def by (rule re_search_header)
  have l: "length (frame body) = length (header (length body)) + length body"
    by (simp add: frame_def)
  have "decode_loop nd (frame body) q =
        decode_loop nd (drop (length (header (length body)) + length body) (frame body))
          (case json_loads (take (length body) (drop (length (header (length body))) (frame body))) of
             Some v \<Rightarrow> q @ [v] | None \<Rightarrow> q)"
    by (subst decode_loop.simps) (simp add: c r int_of_digits_str_nat l)
  also have "drop (length (header (length body)) + length body) (frame body) = []"
    by (simp add: l)
  also have "take (length body) (drop (length (header (length body))) (frame body)) = body"
    by (simp add: frame_def)
  finally show ?thesis by (simp add: decode_loop_Nil decoded_def split: option.splits)
qed

lemma decode_loop_frame_prefix:
  assumes "k < length (frame body)"
  shows "decode_loop nd (take k (frame body)) q = (take k (frame body), q)"
proof (cases "k < length (header (length body))")
  case True
  then have "take k (frame body) = take k (header (length body))" by (simp add: frame_def)
  then show ?thesis using re_search_header_prefix [OF True] by (simp add: decode_loop_no_match)
next
  case False
  define j where "j = k - length (header (length body))"
  from False have t: "take k (frame body) = header (length body) @ take j body"
    by (simp add: frame_def j_def)
  from False assms have "j < length body" by (simp add: frame_def j_def)
  then have "length (take k (frame body)) <
             length (header (length body)) + int_of_digits nd (str_nat (length body))"
    by (simp add: t int_of_digits_str_nat)
  moreover have "re_search nd (take k (frame body)) =
                 Some (str_nat (length body), length (header (length body)))"
    unfolding t by (rule re_search_header)
  ultimately show ?thesis by (rule decode_loop_short [rotated])
qed

lemma read_from_frame: "read_from nd ([], q) (frame body) = ([], q @ decoded body)"
proof -
  have ne: "frame body \<noteq> []" using header_nonempty by (simp add: frame_def)
  have "read_from nd ([], q) (frame body) = decode_loop nd ([] @ frame body) q"
    using ne by (rule read_from_last) (simp add: decode_loop_frame_prefix)
  then show ?thesis by (simp add: decode_loop_frame)
qed

lemma read_from_frames:
  "read_from nd ([], q) (concat (map frame bodies)) = ([], q @ concat (map decoded bodies))"
  by (induction bodies arbitrary: q) (simp_all add: read_from_def [of _ _ "[]"] read_from_append read_from_frame)

section \<open>The header of an encoded message\<close>

text \<open>
  C2. For every message \<open>m\<close>, \<open>encode_lsp m\<close> is \<open>Content-Length: L\<close>, then
  \<open>\r\n\r\n\<close>, then the serialized body, and \<open>L\<close> is the number of bytes of that body in
  UTF-8. The code writes the number of code points; the two agree because \<open>json.dumps\<close>
  escapes every character outside printable ASCII.
\<close>

theorem encode_lsp_content_length:
  "float_free m \<Longrightarrow>
   encode_lsp m =
     lit ''Content-Length: '' @ str_nat (utf8_len (json_dumps m)) @ [13, 10, 13, 10] @
     json_dumps m"
  by (simp add: encode_lsp_def Let_def ascii_utf8_len ascii_json_dumps)

theorem encode_lsp_content_length_witness:
  "float_free (JDict [(lit ''id'', JInt 1), (lit ''result'', JStr [233, 128512])]) \<and>
   encode_lsp (JDict [(lit ''id'', JInt 1), (lit ''result'', JStr [233, 128512])]) =
     lit ''Content-Length: '' @
     str_nat (utf8_len (json_dumps (JDict [(lit ''id'', JInt 1), (lit ''result'', JStr [233, 128512])]))) @
     [13, 10, 13, 10] @
     json_dumps (JDict [(lit ''id'', JInt 1), (lit ''result'', JStr [233, 128512])])"
proof -
  have h: "float_free (JDict [(lit ''id'', JInt 1), (lit ''result'', JStr [233, 128512])])"
    by simp
  from h encode_lsp_content_length [OF h] show ?thesis by simp
qed

section \<open>Round trip and frame order\<close>

lemma read_from_encode_lsp:
  "valid_json m \<Longrightarrow> read_from nd ([], q) (encode_lsp m) = ([], q @ [m])"
  by (simp add: encode_lsp_frame read_from_frame decoded_def json_loads_dumps)

lemma encode_lsp_nonempty: "encode_lsp m \<noteq> []"
  by (simp add: encode_lsp_frame frame_def header_nonempty)

lemma one_by_one_pieces: "[] \<notin> set (one_by_one s)" "concat (one_by_one s) = s"
  by (induction s) (auto simp: one_by_one_def)

text \<open>
  C1, as stated, fails: a message with a string that holds a high and a low surrogate side by
  side is serializable, and the reader gives back the message with the two joined into one
  character.
\<close>

theorem round_trip_counterexample:
  "read_responses ascii_digits
     [encode_lsp (JDict [(lit ''id'', JInt 1), (lit ''result'', JStr [55357, 56832])])] =
   ([], [JDict [(lit ''id'', JInt 1), (lit ''result'', JStr [128512])]]) \<and>
   read_responses ascii_digits
     [encode_lsp (JDict [(lit ''id'', JInt 1), (lit ''result'', JStr [55357, 56832])])] \<noteq>
   ([], [JDict [(lit ''id'', JInt 1), (lit ''result'', JStr [55357, 56832])]])"
  by code_simp

text \<open>
  C1, amended. Round trip: for every message \<open>m\<close> of \<open>valid_json\<close> (the message is built
  from \<open>None\<close>, booleans, integers, strings, lists and dictionaries with string keys, and in
  its strings and keys no high surrogate is directly followed by a low surrogate), the text
  \<open>encode_lsp m\<close> given to the reader puts exactly one message on the queue, equal to \<open>m\<close>,
  and leaves the buffer empty.
\<close>

theorem read_responses_round_trip:
  "valid_json m \<Longrightarrow> read_responses nd [encode_lsp m] = ([], [m])"
proof -
  assume v: "valid_json m"
  have "read_responses nd [encode_lsp m] = read_from nd ([], []) (concat [encode_lsp m])"
    unfolding read_responses_def
    by (rule read_loop_read_from) (use encode_lsp_nonempty [of m] in auto)
  then show ?thesis using read_from_encode_lsp [OF v, of nd "[]"] by simp
qed

theorem read_responses_round_trip_witness:
  "valid_json (JDict [(lit ''jsonrpc'', JStr (lit ''2.0'')), (lit ''id'', JInt 1),
                      (lit ''result'', JList [JStr [55357, 233, 128512, 10], JNull, JBool True])]) \<and>
   read_responses ascii_digits
     [encode_lsp (JDict [(lit ''jsonrpc'', JStr (lit ''2.0'')), (lit ''id'', JInt 1),
                         (lit ''result'', JList [JStr [55357, 233, 128512, 10], JNull, JBool True])])] =
   ([], [JDict [(lit ''jsonrpc'', JStr (lit ''2.0'')), (lit ''id'', JInt 1),
                (lit ''result'', JList [JStr [55357, 233, 128512, 10], JNull, JBool True])]])"
proof -
  have h: "valid_json (JDict [(lit ''jsonrpc'', JStr (lit ''2.0'')), (lit ''id'', JInt 1),
                      (lit ''result'', JList [JStr [55357, 233, 128512, 10], JNull, JBool True])])"
    by (simp add: text_ok_def lit_def is_high_surrogate_def is_low_surrogate_def)
  from h read_responses_round_trip [OF h] show ?thesis by simp
qed

text \<open>
  C5, as stated, fails: after the frame of \<open>1\<close>, the frame of a string that holds a high and
  a low surrogate side by side is decoded as the string of the one character they join
  into, so what is decoded is not the second message.
\<close>

theorem two_frames_counterexample:
  "read_responses ascii_digits
     (one_by_one (encode_lsp (JInt 1) @ encode_lsp (JStr [55357, 56832]))) =
   ([], [JInt 1, JStr [128512]]) \<and>
   read_responses ascii_digits
     (one_by_one (encode_lsp (JInt 1) @ encode_lsp (JStr [55357, 56832]))) \<noteq>
   ([], [JInt 1, JStr [55357, 56832]])"
  by code_simp

text \<open>
  C5, amended. Two frames: for messages \<open>m1\<close> and \<open>m2\<close> of \<open>valid_json\<close> (built from
  \<open>None\<close>, booleans, integers, strings, lists and dictionaries with string keys, no high
  surrogate directly followed by a low surrogate in their strings and keys), the text
  \<open>encode_lsp m1 @ encode_lsp m2\<close> puts \<open>m1\<close> and then \<open>m2\<close> on the queue and leaves the
  buffer empty, however the stream cuts the text into pieces, pieces of one character
  included.
\<close>

theorem read_responses_two_frames:
  "valid_json m1 \<Longrightarrow> valid_json m2 \<Longrightarrow> [] \<notin> set chunks \<Longrightarrow>
   concat chunks = encode_lsp m1 @ encode_lsp m2 \<Longrightarrow>
   read_responses nd chunks = ([], [m1, m2])"
proof -
  assume v: "valid_json m1" "valid_json m2" and ne: "[] \<notin> set chunks"
    and c: "concat chunks = encode_lsp m1 @ encode_lsp m2"
  have "read_responses nd chunks = read_from nd ([], []) (encode_lsp m1 @ encode_lsp m2)"
    unfolding read_responses_def using read_loop_read_from [OF ne] c by simp
  then show ?thesis
    using read_from_encode_lsp [OF v(1), of nd "[]"] read_from_encode_lsp [OF v(2), of nd "[m1]"]
    by (simp add: read_from_append)
qed

theorem read_responses_two_frames_witness:
  "valid_json (JDict [(lit ''id'', JInt 1), (lit ''result'', JNull)]) \<and>
   valid_json (JDict [(lit ''method'', JStr (lit ''initialized'')), (lit ''params'', JDict [])]) \<and>
   read_responses ascii_digits
     (one_by_one
       (encode_lsp (JDict [(lit ''id'', JInt 1), (lit ''result'', JNull)]) @
        encode_lsp (JDict [(lit ''method'', JStr (lit ''initialized'')), (lit ''params'', JDict [])]))) =
   ([], [JDict [(lit ''id'', JInt 1), (lit ''result'', JNull)],
         JDict [(lit ''method'', JStr (lit ''initialized'')), (lit ''params'', JDict [])]])"
proof -
  let ?m1 = "JDict [(lit ''id'', JInt 1), (lit ''result'', JNull)]"
  let ?m2 = "JDict [(lit ''method'', JStr (lit ''initialized'')), (lit ''params'', JDict [])]"
  have h1: "valid_json ?m1" by (simp add: text_ok_def lit_def is_high_surrogate_def)
  have h2: "valid_json ?m2" by (simp add: text_ok_def lit_def is_high_surrogate_def)
  from h1 h2
    read_responses_two_frames [OF h1 h2 one_by_one_pieces(1) one_by_one_pieces(2), of ascii_digits]
  show ?thesis by blast
qed

section \<open>A frame whose body is not JSON\<close>

lemma read_from_frame_body:
  "json_loads body = None \<Longrightarrow> read_from nd ([], q) (frame body) = ([], q)"
  by (simp add: read_from_frame decoded_def)

text \<open>
  C4. Between two valid frames, a frame whose body is not valid JSON is dropped and the two
  valid messages are decoded in order. The reader does this when the \<open>Content-Length\<close> of
  the frame in the middle is the number of characters of its body, which for an ASCII body is
  its number of bytes (\<open>malformed_frame_dropped\<close> below). It cuts the body by characters,
  though, where \<open>Content-Length\<close> counts bytes: a frame whose \<open>Content-Length\<close> is the byte
  length of a body with a character outside ASCII is cut after that many characters, which
  takes the first character of the next frame with it. Here the body is \<open>U+00E9\<close> (two bytes
  in UTF-8), between the frames of \<open>1\<close> and \<open>2\<close>: the message \<open>2\<close> is never decoded, and
  what is left of its frame stays in the buffer.
\<close>

theorem malformed_frame_byte_length:
  "json_loads [233] = None \<and>
   read_responses ascii_digits
     [encode_lsp (JInt 1) @
      (lit ''Content-Length: '' @ str_nat (utf8_len [233]) @ [13, 10, 13, 10] @ [233]) @
      encode_lsp (JInt 2)] =
   (lit ''ontent-Length: 1'' @ [13, 10, 13, 10] @ lit ''2'', [JInt 1])"
  by code_simp

lemma malformed_frame_dropped:
  "valid_json m1 \<Longrightarrow> valid_json m2 \<Longrightarrow> json_loads body = None \<Longrightarrow> [] \<notin> set chunks \<Longrightarrow>
   concat chunks = encode_lsp m1 @ frame body @ encode_lsp m2 \<Longrightarrow>
   read_responses nd chunks = ([], [m1, m2])"
proof -
  assume v: "valid_json m1" "valid_json m2" and b: "json_loads body = None"
    and ne: "[] \<notin> set chunks"
    and c: "concat chunks = encode_lsp m1 @ frame body @ encode_lsp m2"
  have "read_responses nd chunks =
        read_from nd ([], []) (encode_lsp m1 @ frame body @ encode_lsp m2)"
    unfolding read_responses_def using read_loop_read_from [OF ne] c by simp
  then show ?thesis
    using read_from_encode_lsp [OF v(1), of nd "[]"] read_from_frame_body [OF b, of nd "[m1]"]
      read_from_encode_lsp [OF v(2), of nd "[m1]"]
    by (simp add: read_from_append)
qed

lemma malformed_frame_dropped_example:
  "read_responses ascii_digits
     (one_by_one (encode_lsp (JInt 1) @ frame (lit ''{nope'') @ encode_lsp (JInt 2))) =
   ([], [JInt 1, JInt 2])"
proof -
  have h1: "valid_json (JInt 1)" and h2: "valid_json (JInt 2)" by simp_all
  have h3: "json_loads (lit ''{nope'') = None" by code_simp
  show ?thesis
    using malformed_frame_dropped [OF h1 h2 h3 one_by_one_pieces(1) one_by_one_pieces(2)] .
qed

section \<open>The spelling of the header field\<close>

lemma starts_with_iff: "starts_with s p \<longleftrightarrow> (\<exists>b. s = p @ b)"
proof
  assume "starts_with s p"
  then have "s = p @ drop (length p) s" by (metis append_take_drop_id starts_with_def)
  then show "\<exists>b. s = p @ b" ..
next
  assume "\<exists>b. s = p @ b"
  then show "starts_with s p" by (auto simp: starts_with_def)
qed

lemma contains_iff: "contains s p \<longleftrightarrow> (\<exists>a b. s = a @ p @ b)"
proof (induction s)
  case Nil
  then show ?case by auto
next
  case (Cons c cs)
  show ?case
  proof
    assume "contains (c # cs) p"
    then consider "starts_with (c # cs) p" | "contains cs p" by auto
    then show "\<exists>a b. c # cs = a @ p @ b"
    proof cases
      case 1
      then obtain b where "c # cs = p @ b" using starts_with_iff by blast
      then have "c # cs = [] @ p @ b" by simp
      then show ?thesis by blast
    next
      case 2
      then obtain a b where "cs = a @ p @ b" using Cons.IH by blast
      then have "c # cs = (c # a) @ p @ b" by simp
      then show ?thesis by blast
    qed
  next
    assume "\<exists>a b. c # cs = a @ p @ b"
    then obtain a b where e: "c # cs = a @ p @ b" by blast
    show "contains (c # cs) p"
    proof (cases a)
      case Nil
      with e have "starts_with (c # cs) p" using starts_with_iff by auto
      then show ?thesis by simp
    next
      case (Cons x a')
      with e have "cs = a' @ p @ b" by simp
      then have "contains cs p" using Cons.IH by blast
      then show ?thesis by simp
    qed
  qed
qed

lemma contains_take: "contains (take k s) p \<Longrightarrow> contains s p"
proof -
  assume "contains (take k s) p"
  then obtain a b where "take k s = a @ p @ b" using contains_iff by blast
  then have "s = a @ p @ (b @ drop k s)" by (metis append.assoc append_take_drop_id)
  then show ?thesis using contains_iff by blast
qed

lemma decode_loop_no_header:
  "\<not> contains b (lit ''Content-Length:'') \<Longrightarrow> decode_loop nd b q = (b, q)"
  by (subst decode_loop.simps) simp

lemma read_from_no_header:
  assumes "\<not> contains s (lit ''Content-Length:'')"
  shows "read_from nd ([], q) s = (s, q)"
proof -
  have "read_from nd ([], q) s = ([] @ s, q)"
  proof (rule read_from_idle)
    fix k
    have "\<not> contains (take k s) (lit ''Content-Length:'')" using assms contains_take by blast
    then show "decode_loop nd ([] @ take k s) q = ([] @ take k s, q)"
      by (simp add: decode_loop_no_header)
  qed
  then show ?thesis by simp
qed

text \<open>
  C7, as stated, fails: the frame of \<open>null\<close> under the header \<open>content-length: 4\<close> is not
  decoded, the same frame under \<open>Content-Length: 4\<close> is.
\<close>

theorem header_case_counterexample:
  "read_responses ascii_digits [lit ''content-length: 4'' @ [13, 10, 13, 10] @ lit ''null''] =
     (lit ''content-length: 4'' @ [13, 10, 13, 10] @ lit ''null'', []) \<and>
   read_responses ascii_digits [lit ''Content-Length: 4'' @ [13, 10, 13, 10] @ lit ''null''] =
     ([], [JNull])"
  by code_simp

text \<open>
  C7, amended. The field is matched by its exact spelling: from a stream in which the text
  \<open>Content-Length:\<close> does not occur, as when the header is spelled \<open>content-length:\<close>,
  no message is decoded, and the whole text stays in the buffer.
\<close>

theorem header_case_sensitive:
  "\<not> contains (concat chunks) (lit ''Content-Length:'') \<Longrightarrow> [] \<notin> set chunks \<Longrightarrow>
   read_responses nd chunks = (concat chunks, [])"
  unfolding read_responses_def by (simp add: read_loop_read_from read_from_no_header)

theorem header_case_sensitive_witness:
  "\<not> contains (concat [lit ''content-length: 4'' @ [13, 10, 13, 10] @ lit ''null''])
       (lit ''Content-Length:'') \<and>
   [] \<notin> set [lit ''content-length: 4'' @ [13, 10, 13, 10] @ lit ''null''] \<and>
   read_responses ascii_digits [lit ''content-length: 4'' @ [13, 10, 13, 10] @ lit ''null''] =
     (concat [lit ''content-length: 4'' @ [13, 10, 13, 10] @ lit ''null''], [])"
proof -
  have h1: "\<not> contains (concat [lit ''content-length: 4'' @ [13, 10, 13, 10] @ lit ''null''])
       (lit ''Content-Length:'')" by code_simp
  have h2: "[] \<notin> set [lit ''content-length: 4'' @ [13, 10, 13, 10] @ lit ''null'']"
    by (simp add: lit_def)
  from h1 h2 header_case_sensitive [OF h1 h2] show ?thesis by blast
qed

section \<open>A header with a malformed length\<close>

text \<open>
  A header with its terminator whose value \<open>v\<close> is not a number: \<open>v\<close> is empty or holds a
  character that is not a digit. The value is on one line, and holds no other header.
\<close>

definition bad_header :: "pystr \<Rightarrow> pystr" where
  "bad_header v = lit ''Content-Length: '' @ v @ [13, 10, 13, 10]"


lemma length_bad_header: "length (bad_header v) = 20 + length v"
  by (simp add: bad_header_def length_CL)














section \<open>Waiting for a response\<close>

text \<open>
  \<^verbatim>\<open>
  def wait_for_response(q, id, timeout=30):
      start = time.time()
      while time.time() - start < timeout:
          try:
              r = q.get(timeout=1)
              if r.get("id") == id:
                  return r
          except queue.Empty:
              continue
      return None
  \<close>
  The callers pass an integer \<open>id\<close>. \<open>r.get\<close> exists on a dictionary only; on any other
  value the call raises \<open>AttributeError\<close>, which the function does not catch. A missing key
  gives \<open>None\<close>. An integer equals the integer of the same value and the boolean of the same
  value (\<open>True == 1\<close>); the comparison with a float is outside this model and has an outcome
  of its own.
\<close>

datatype id_test = Match | NoMatch | NotADict | FloatCompare

definition test_id :: "json \<Rightarrow> int \<Rightarrow> id_test" where
  "test_id r i =
     (case r of
        JDict kvs \<Rightarrow>
          (case map_of kvs (lit ''id'') of
             None \<Rightarrow> NoMatch
           | Some (JInt n) \<Rightarrow> if n = i then Match else NoMatch
           | Some (JBool b) \<Rightarrow> if (if b then 1 else 0) = i then Match else NoMatch
           | Some (JFloat t) \<Rightarrow> FloatCompare
           | Some _ \<Rightarrow> NoMatch)
      | _ \<Rightarrow> NotADict)"

text \<open>
  The queue is shared with the reader thread, and the loop is driven by the clock. One
  \<open>tick\<close> stands for one test of the loop condition: the reading of \<open>time.time()\<close> at the
  test (in some fixed unit, as is the timeout), and the messages the reader has put on the
  queue by the time the \<open>q.get\<close> that follows returns. \<open>q.get(timeout=1)\<close> returns the
  oldest message, or raises \<open>queue.Empty\<close> when there is none. The ticks given are those
  observed; when they run out before the function has returned the result is \<open>None\<close>.
\<close>

datatype outcome = Returned json | TimedOut | AttributeError | FloatComparison

fun wait_loop ::
  "int \<Rightarrow> int \<Rightarrow> int \<Rightarrow> json list \<Rightarrow> (int \<times> json list) list \<Rightarrow> (outcome \<times> json list) option"
where
  "wait_loop start timeout i q [] = None"
| "wait_loop start timeout i q ((now, arrivals) # ticks) =
     (if now - start < timeout then
        (case q @ arrivals of
           [] \<Rightarrow> wait_loop start timeout i [] ticks
         | r # q' \<Rightarrow>
             (case test_id r i of
                Match \<Rightarrow> Some (Returned r, q')
              | NoMatch \<Rightarrow> wait_loop start timeout i q' ticks
              | NotADict \<Rightarrow> Some (AttributeError, q')
              | FloatCompare \<Rightarrow> Some (FloatComparison, q')))
      else Some (TimedOut, q))"

text \<open>
  \<open>wait_for_response\<close> on the queue \<open>q\<close>, with \<open>start\<close> the first reading of the clock.
  The result is what the call returns or raises, and the queue it leaves.
\<close>

definition wait_for_response ::
  "json list \<Rightarrow> int \<Rightarrow> int \<Rightarrow> int \<Rightarrow> (int \<times> json list) list \<Rightarrow> (outcome \<times> json list) option"
where
  "wait_for_response q i timeout start ticks = wait_loop start timeout i q ticks"

text \<open>A message that the wait for \<open>i\<close> passes over: a dictionary whose id is not \<open>i\<close>.\<close>

definition other_id :: "int \<Rightarrow> json \<Rightarrow> bool" where
  "other_id i r = (test_id r i = NoMatch)"

text \<open>Ticks without arrivals, ticks before the deadline, and a tick at or after it.\<close>

definition quiet :: "(int \<times> json list) list \<Rightarrow> bool" where
  "quiet ticks = list_all (\<lambda>t. snd t = []) ticks"

definition in_time :: "int \<Rightarrow> int \<Rightarrow> (int \<times> json list) list \<Rightarrow> bool" where
  "in_time start timeout ticks = list_all (\<lambda>t. fst t - start < timeout) ticks"

definition deadline_reached :: "int \<Rightarrow> int \<Rightarrow> (int \<times> json list) list \<Rightarrow> bool" where
  "deadline_reached start timeout ticks = list_ex (\<lambda>t. timeout \<le> fst t - start) ticks"

text \<open>
  The queue after the \<open>q.get\<close> of each of these ticks: what has arrived is behind what was
  there, and the oldest message, if there is one, is taken.
\<close>

fun pass_over :: "json list \<Rightarrow> (int \<times> json list) list \<Rightarrow> json list" where
  "pass_over q [] = q"
| "pass_over q ((now, arrivals) # ticks) = pass_over (drop 1 (q @ arrivals)) ticks"

text \<open>
  \<open>q.get(timeout=1)\<close> raises \<open>queue.Empty\<close> after it has waited for one second: between two
  loop tests with such a \<open>q.get\<close> in between, the clock advances by a second at least
  (\<open>sec\<close> is the second in the unit of the clock).
\<close>

fun spaced :: "int \<Rightarrow> (int \<times> json list) list \<Rightarrow> bool" where
  "spaced sec (t # u # ticks) = (fst t + sec \<le> fst u \<and> spaced sec (u # ticks))"
| "spaced sec ticks = True"


text \<open>A response as the server sends it.\<close>

definition response :: "int \<Rightarrow> json \<Rightarrow> json" where
  "response i v =
     JDict [(lit ''jsonrpc'', JStr (lit ''2.0'')), (lit ''id'', JInt i), (lit ''result'', v)]"

section \<open>Time-out\<close>

lemma wait_loop_timeout:
  "list_all (other_id i) q \<Longrightarrow> list_all (\<lambda>t. list_all (other_id i) (snd t)) ticks \<Longrightarrow>
   deadline_reached start timeout ticks \<Longrightarrow>
   \<exists>q'. wait_loop start timeout i q ticks = Some (TimedOut, q')"
proof (induction ticks arbitrary: q)
  case Nil
  then show ?case by (simp add: deadline_reached_def)
next
  case (Cons t ticks)
  obtain now a where t: "t = (now, a)" by (cases t)
  note IH = Cons.IH
  show ?case
  proof (cases "now - start < timeout")
    case False
    then show ?thesis by (simp add: t)
  next
    case True
    with Cons.prems(3) have d: "deadline_reached start timeout ticks"
      by (simp add: deadline_reached_def t)
    from Cons.prems(2) have a: "list_all (other_id i) a"
      and ts: "list_all (\<lambda>t. list_all (other_id i) (snd t)) ticks"
      by (simp_all add: t)
    show ?thesis
    proof (cases "q @ a")
      case Nil
      then show ?thesis using True IH [of "[]", OF _ ts d] by (simp add: t)
    next
      case (Cons r q')
      from Cons.prems(1) a have "list_all (other_id i) (q @ a)" by simp
      then have q': "list_all (other_id i) q'" and "other_id i r"
        by (simp_all add: Cons)
      then have r: "test_id r i = NoMatch" by (simp add: other_id_def)
      show ?thesis using True Cons r IH [OF q' ts d] by (simp add: t)
    qed
  qed
qed

lemma wait_loop_in_time:
  "list_all (other_id i) q \<Longrightarrow> list_all (\<lambda>t. list_all (other_id i) (snd t)) pre \<Longrightarrow>
   in_time start timeout pre \<Longrightarrow> wait_loop start timeout i q pre = None"
proof (induction pre arbitrary: q)
  case Nil
  then show ?case by simp
next
  case (Cons t pre)
  obtain n b where t: "t = (n, b)" by (cases t)
  note IH = Cons.IH
  from Cons.prems(3) have n: "n - start < timeout" and it: "in_time start timeout pre"
    by (simp_all add: in_time_def t)
  from Cons.prems(2) have b: "list_all (other_id i) b"
    and ts: "list_all (\<lambda>t. list_all (other_id i) (snd t)) pre"
    by (simp_all add: t)
  show ?case
  proof (cases "q @ b")
    case Nil
    then show ?thesis using n IH [of "[]", OF _ ts it] by (simp add: t)
  next
    case (Cons r q')
    from Cons.prems(1) b have "list_all (other_id i) (q @ b)" by simp
    then have q': "list_all (other_id i) q'" and "other_id i r" by (simp_all add: Cons)
    then have r: "test_id r i = NoMatch" by (simp add: other_id_def)
    show ?thesis using n Cons r IH [OF q' ts it] by (simp add: t)
  qed
qed

lemma wait_loop_deadline:
  "list_all (other_id i) q \<Longrightarrow> list_all (\<lambda>t. list_all (other_id i) (snd t)) pre \<Longrightarrow>
   in_time start timeout pre \<Longrightarrow> timeout \<le> now - start \<Longrightarrow>
   wait_loop start timeout i q (pre @ (now, a) # rest) = Some (TimedOut, pass_over q pre)"
proof (induction pre arbitrary: q)
  case Nil
  then show ?case by simp
next
  case (Cons t pre)
  obtain n b where t: "t = (n, b)" by (cases t)
  note IH = Cons.IH
  from Cons.prems(3) have n: "n - start < timeout" and it: "in_time start timeout pre"
    by (simp_all add: in_time_def t)
  from Cons.prems(2) have b: "list_all (other_id i) b"
    and ts: "list_all (\<lambda>t. list_all (other_id i) (snd t)) pre"
    by (simp_all add: t)
  show ?case
  proof (cases "q @ b")
    case Nil
    then show ?thesis using n IH [of "[]", OF _ ts it Cons.prems(4)] by (simp add: t)
  next
    case (Cons r q')
    from Cons.prems(1) b have "list_all (other_id i) (q @ b)" by simp
    then have q': "list_all (other_id i) q'" and "other_id i r" by (simp_all add: Cons)
    then have r: "test_id r i = NoMatch" by (simp add: other_id_def)
    show ?thesis using n Cons r IH [OF q' ts it \<open>timeout \<le> now - start\<close>] by (simp add: t)
  qed
qed

lemma wait_loop_quiet:
  "quiet ticks \<Longrightarrow> deadline_reached start timeout ticks \<Longrightarrow>
   wait_loop start timeout i [] ticks = Some (TimedOut, [])"
proof (induction ticks)
  case Nil
  then show ?case by (simp add: deadline_reached_def)
next
  case (Cons t ticks)
  obtain now a where t: "t = (now, a)" by (cases t)
  from Cons.prems(1) have a: "a = []" and q: "quiet ticks" by (simp_all add: t quiet_def)
  show ?case
  proof (cases "now - start < timeout")
    case False
    then show ?thesis by (simp add: t)
  next
    case True
    with Cons.prems(2) have "deadline_reached start timeout ticks"
      by (simp add: deadline_reached_def t)
    with Cons.IH q True show ?thesis by (simp add: t a)
  qed
qed

lemma spaced_last:
  "spaced sec (t # ts) \<Longrightarrow> fst t + sec * int (length ts) \<le> fst (last (t # ts))"
proof (induction ts arbitrary: t)
  case Nil
  then show ?case by simp
next
  case (Cons u ts)
  from Cons.prems have s: "fst t + sec \<le> fst u" and sp: "spaced sec (u # ts)" by simp_all
  from Cons.IH [OF sp] have "fst u + sec * int (length ts) \<le> fst (last (u # ts))" .
  with s have "fst t + sec + sec * int (length ts) \<le> fst (last (u # ts))" by linarith
  then show ?case by (simp add: algebra_simps)
qed

lemma spaced_deadline:
  assumes "spaced sec (t # ts)" "start \<le> fst t" "timeout \<le> sec * int (length ts)"
  shows "deadline_reached start timeout (t # ts)"
proof -
  have "timeout \<le> fst (last (t # ts)) - start"
    using spaced_last [OF assms(1)] assms(2, 3) by linarith
  moreover have "last (t # ts) \<in> set (t # ts)" by (rule last_in_set) simp
  ultimately show ?thesis unfolding deadline_reached_def list_ex_iff by blast
qed

text \<open>
  C8. A wait for the id \<open>i\<close> with the timeout \<open>timeout\<close>, on a queue and a stream that hold
  messages with other ids only, returns \<open>None\<close> (time-out) once the deadline has elapsed:
  through the loop tests before the deadline it has not returned; at the first test at or
  past the deadline it returns \<open>None\<close>, whatever comes after, having returned none of the
  messages it took off the queue. It does not wait for ever: when the server never answers,
  every \<open>q.get\<close> ends after a second, and the wait returns \<open>None\<close> within the tests that
  \<open>timeout\<close> seconds hold.
\<close>

theorem wait_for_response_timeout:
  "list_all (other_id i) q \<Longrightarrow> list_all (\<lambda>t. list_all (other_id i) (snd t)) pre \<Longrightarrow>
   in_time start timeout pre \<Longrightarrow> timeout \<le> now - start \<Longrightarrow>
   quiet (t0 # ts) \<Longrightarrow> spaced sec (t0 # ts) \<Longrightarrow> start \<le> fst t0 \<Longrightarrow>
   timeout \<le> sec * int (length ts) \<Longrightarrow>
   wait_for_response q i timeout start pre = None \<and>
   wait_for_response q i timeout start (pre @ (now, a) # rest) =
     Some (TimedOut, pass_over q pre) \<and>
   wait_for_response [] i timeout start (t0 # ts) = Some (TimedOut, [])"
proof -
  assume q: "list_all (other_id i) q"
    and pre: "list_all (\<lambda>t. list_all (other_id i) (snd t)) pre"
    and it: "in_time start timeout pre" and late: "timeout \<le> now - start"
    and qu: "quiet (t0 # ts)" and sp: "spaced sec (t0 # ts)" and st: "start \<le> fst t0"
    and n: "timeout \<le> sec * int (length ts)"
  have "wait_loop start timeout i q pre = None"
    using q pre it by (rule wait_loop_in_time)
  moreover have "wait_loop start timeout i q (pre @ (now, a) # rest) =
                 Some (TimedOut, pass_over q pre)"
    using q pre it late by (rule wait_loop_deadline)
  moreover have "wait_loop start timeout i [] (t0 # ts) = Some (TimedOut, [])"
    using qu spaced_deadline [OF sp st n] by (rule wait_loop_quiet)
  ultimately show ?thesis by (simp add: wait_for_response_def)
qed

theorem wait_for_response_timeout_witness:
  "list_all (other_id 2) [response 1 JNull] \<and>
   list_all (\<lambda>t. list_all (other_id 2) (snd t))
     [(0, []), (1, [response 3 JNull, response 4 JNull, response 5 JNull]), (2, [])] \<and>
   in_time 0 3 [(0, []), (1, [response 3 JNull, response 4 JNull, response 5 JNull]), (2, [])] \<and>
   (3 :: int) \<le> 3 - 0 \<and>
   quiet ((0, []) # [(1, []), (2, []), (3, [])]) \<and>
   spaced 1 ((0, []) # [(1, []), (2, []), (3, [])]) \<and>
   (0 :: int) \<le> fst (0 :: int, [] :: json list) \<and>
   (3 :: int) \<le> 1 * int (length [(1 :: int, [] :: json list), (2, []), (3, [])]) \<and>
   wait_for_response [response 1 JNull] 2 3 0
     [(0, []), (1, [response 3 JNull, response 4 JNull, response 5 JNull]), (2, [])] = None \<and>
   wait_for_response [response 1 JNull] 2 3 0
     ([(0, []), (1, [response 3 JNull, response 4 JNull, response 5 JNull]), (2, [])] @
      (3, [response 2 JNull]) # []) = Some (TimedOut, [response 5 JNull]) \<and>
   wait_for_response [] 2 3 0 ((0, []) # [(1, []), (2, []), (3, [])]) = Some (TimedOut, [])"
proof -
  have h1: "list_all (other_id 2) [response 1 JNull]"
    by (simp add: other_id_def test_id_def response_def lit_def)
  have h2: "list_all (\<lambda>t. list_all (other_id 2) (snd t))
     [(0, []), (1, [response 3 JNull, response 4 JNull, response 5 JNull]), (2, [])]"
    by (simp add: other_id_def test_id_def response_def lit_def)
  have h3: "in_time 0 3 [(0, []), (1, [response 3 JNull, response 4 JNull, response 5 JNull]), (2, [])]"
    by (simp add: in_time_def)
  have h4: "(3 :: int) \<le> 3 - 0" by simp
  have h5: "quiet ((0, []) # [(1, []), (2, []), (3 :: int, [] :: json list)])"
    by (simp add: quiet_def)
  have h6: "spaced 1 ((0, []) # [(1, []), (2, []), (3 :: int, [] :: json list)])" by simp
  have h7: "(0 :: int) \<le> fst (0 :: int, [] :: json list)" by simp
  have h8: "(3 :: int) \<le> 1 * int (length [(1 :: int, [] :: json list), (2, []), (3, [])])"
    by simp
  have p: "pass_over [response 1 JNull]
             [(0, []), (1, [response 3 JNull, response 4 JNull, response 5 JNull]), (2, [])] =
           [response 5 JNull]"
    by simp
  from h1 h2 h3 h4 h5 h6 h7 h8
    wait_for_response_timeout [OF h1 h2 h3 h4 h5 h6 h7 h8, of "[response 2 JNull]" "[]"] p
  show ?thesis by simp
qed

section \<open>Messages passed over are gone\<close>

lemma wait_loop_consumes:
  "list_all (other_id i) pre \<Longrightarrow> test_id r i = Match \<Longrightarrow> length ts = Suc (length pre) \<Longrightarrow>
   in_time start timeout ts \<Longrightarrow>
   wait_loop start timeout i (pre @ r # post) (ts @ rest) =
     Some (Returned r, post @ concat (map snd ts))"
proof (induction pre arbitrary: ts post)
  case Nil
  then obtain now a where ts: "ts = [(now, a)]" by (cases ts) auto
  with Nil show ?case by (simp add: in_time_def)
next
  case (Cons p pre)
  from Cons.prems(3) obtain now a ts' where ts: "ts = (now, a) # ts'" and l: "length ts' = Suc (length pre)"
    by (cases ts) auto
  from Cons.prems(1) have pre: "list_all (other_id i) pre" by simp
  from Cons.prems(1) have p: "test_id p i = NoMatch" by (simp add: other_id_def)
  from Cons.prems(4) have n: "now - start < timeout" and it: "in_time start timeout ts'"
    by (simp_all add: ts in_time_def)
  have "wait_loop start timeout i (pre @ r # (post @ a)) (ts' @ rest) =
        Some (Returned r, (post @ a) @ concat (map snd ts'))"
    using Cons.IH [OF pre Cons.prems(2) l it] .
  then show ?case using n p by (simp add: ts)
qed

text \<open>
  C10. While it waits for the id \<open>i\<close>, \<open>wait_for_response\<close> takes every message with another
  id that is ahead of the awaited response off the queue and drops it: when it returns, the
  queue holds what was behind the response and what arrived meanwhile, so that no later
  wait is given those messages.
\<close>

theorem wait_for_response_consumes:
  "list_all (other_id i) pre \<Longrightarrow> test_id r i = Match \<Longrightarrow> length ts = Suc (length pre) \<Longrightarrow>
   in_time start timeout ts \<Longrightarrow>
   wait_for_response (pre @ r # post) i timeout start (ts @ rest) =
     Some (Returned r, post @ concat (map snd ts))"
  unfolding wait_for_response_def by (rule wait_loop_consumes)

theorem wait_for_response_consumes_witness:
  "list_all (other_id 2)
     [response 1 JNull, JDict [(lit ''method'', JStr (lit ''window/logMessage''))]] \<and>
   test_id (response 2 (JInt 7)) 2 = Match \<and>
   length [(0 :: int, [] :: json list), (0, []), (1, [response 3 JNull])] =
     Suc (length [response 1 JNull, JDict [(lit ''method'', JStr (lit ''window/logMessage''))]]) \<and>
   in_time 0 30 [(0, []), (0, []), (1, [response 3 JNull])] \<and>
   wait_for_response
     ([response 1 JNull, JDict [(lit ''method'', JStr (lit ''window/logMessage''))]] @
      response 2 (JInt 7) # [response 4 JNull])
     2 30 0 ([(0, []), (0, []), (1, [response 3 JNull])] @ []) =
   Some (Returned (response 2 (JInt 7)),
         [response 4 JNull] @ concat (map snd [(0 :: int, []), (0, []), (1, [response 3 JNull])]))"
proof -
  have h1: "list_all (other_id 2)
     [response 1 JNull, JDict [(lit ''method'', JStr (lit ''window/logMessage''))]]"
    by (simp add: other_id_def test_id_def response_def lit_def)
  have h2: "test_id (response 2 (JInt 7)) 2 = Match"
    by (simp add: test_id_def response_def lit_def)
  have h3: "length [(0 :: int, [] :: json list), (0, []), (1, [response 3 JNull])] =
     Suc (length [response 1 JNull, JDict [(lit ''method'', JStr (lit ''window/logMessage''))]])"
    by simp
  have h4: "in_time 0 30 [(0, []), (0, []), (1, [response 3 JNull])]"
    by (simp add: in_time_def)
  from h1 h2 h3 h4 wait_for_response_consumes [OF h1 h2 h3 h4] show ?thesis by blast
qed

section \<open>Responses out of order\<close>

lemma test_id_Match_unique: "test_id r i = Match \<Longrightarrow> i \<noteq> j \<Longrightarrow> test_id r j = NoMatch"
  by (auto simp: test_id_def split: json.splits option.splits if_splits)

text \<open>
  C3, as stated, fails: with the responses for 2 and 1 on the queue in this order, the wait
  for 1 returns the response for 1 and leaves an empty queue, and the wait for 2 that follows
  times out.
\<close>

theorem id_correlation_counterexample:
  "wait_for_response [response 2 (JStr (lit ''two'')), response 1 (JStr (lit ''one''))] 1 3 0
     [(0, []), (0, [])] = Some (Returned (response 1 (JStr (lit ''one''))), []) \<and>
   wait_for_response [] 2 3 0 [(0, []), (1, []), (2, []), (3, [])] = Some (TimedOut, [])"
  by (simp add: wait_for_response_def test_id_def response_def lit_def)

text \<open>
  C3, amended. A wait returns the response with its own id only, and drops what it takes
  off the queue before it: with the responses for 2 and 1 arriving in this order, the wait
  for 1 returns the response for 1 and drops the response for 2, and a wait for 2 after it,
  with nothing more arriving, times out.
\<close>

theorem id_correlation_sequential:
  "test_id r1 1 = Match \<Longrightarrow> test_id r2 2 = Match \<Longrightarrow> in_time start timeout [t0, t1] \<Longrightarrow>
   quiet [t0, t1] \<Longrightarrow> quiet ticks \<Longrightarrow> deadline_reached start' timeout' ticks \<Longrightarrow>
   wait_for_response [r2, r1] 1 timeout start (t0 # t1 # rest) = Some (Returned r1, []) \<and>
   wait_for_response [] 2 timeout' start' ticks = Some (TimedOut, [])"
proof -
  assume r1: "test_id r1 1 = Match" and r2: "test_id r2 2 = Match"
    and it: "in_time start timeout [t0, t1]" and q01: "quiet [t0, t1]"
    and q: "quiet ticks" and d: "deadline_reached start' timeout' ticks"
  have o: "list_all (other_id 1) [r2]"
    using test_id_Match_unique [OF r2, of 1] by (simp add: other_id_def)
  have "wait_loop start timeout 1 ([r2] @ r1 # []) ([t0, t1] @ rest) =
        Some (Returned r1, [] @ concat (map snd [t0, t1]))"
    using o r1 _ it by (rule wait_loop_consumes) simp
  moreover have "concat (map snd [t0, t1]) = []" using q01 by (simp add: quiet_def)
  ultimately have "wait_for_response [r2, r1] 1 timeout start (t0 # t1 # rest) =
                   Some (Returned r1, [])"
    by (simp add: wait_for_response_def)
  moreover have "wait_for_response [] 2 timeout' start' ticks = Some (TimedOut, [])"
    unfolding wait_for_response_def using q d by (rule wait_loop_quiet)
  ultimately show ?thesis by simp
qed

theorem id_correlation_sequential_witness:
  "test_id (response 1 (JStr (lit ''one''))) 1 = Match \<and>
   test_id (response 2 (JStr (lit ''two''))) 2 = Match \<and>
   in_time 0 3 [(0, []), (0, [])] \<and> quiet [(0, []), (0, [])] \<and>
   quiet [(0, []), (1, []), (2, []), (3, [])] \<and>
   deadline_reached 0 3 [(0, []), (1, []), (2, []), (3, [])] \<and>
   wait_for_response [response 2 (JStr (lit ''two'')), response 1 (JStr (lit ''one''))] 1 3 0
     ((0, []) # (0, []) # []) = Some (Returned (response 1 (JStr (lit ''one''))), []) \<and>
   wait_for_response [] 2 3 0 [(0, []), (1, []), (2, []), (3, [])] = Some (TimedOut, [])"
proof -
  have h1: "test_id (response 1 (JStr (lit ''one''))) 1 = Match"
    and h2: "test_id (response 2 (JStr (lit ''two''))) 2 = Match"
    by (simp_all add: test_id_def response_def lit_def)
  have h3: "in_time 0 3 [(0, []), (0 :: int, [] :: json list)]" by (simp add: in_time_def)
  have h4: "quiet [(0, []), (0 :: int, [] :: json list)]" by (simp add: quiet_def)
  have h5: "quiet [(0, []), (1, []), (2, []), (3 :: int, [] :: json list)]" by (simp add: quiet_def)
  have h6: "deadline_reached 0 3 [(0, []), (1, []), (2, []), (3 :: int, [] :: json list)]"
    by (simp add: deadline_reached_def)
  from h1 h2 h3 h4 h5 h6 id_correlation_sequential [OF h1 h2 h3 h4 h5 h6] show ?thesis by blast
qed

section \<open>The report of the timing harness\<close>

text \<open>
  \<^verbatim>\<open>
  def print_results(name, results):
      ...
      for op, times in results.items():
          valid_times = [t for t in times if t != float('inf')]
          if valid_times:
              avg = sum(valid_times) / len(valid_times)
              min_t = min(valid_times)
              max_t = max(valid_times)
              print(f"  {op:20s}: avg={avg:8.2f}ms  min={min_t:8.2f}ms  max={max_t:8.2f}ms")
          else:
              print(f"  {op:20s}: TIMEOUT/ERROR")
  \<close>
  A sample is a time in milliseconds or \<open>float('inf')\<close>, which \<open>benchmark_lsp\<close> records for
  a request that timed out. Times are rational numbers here, without the rounding of floats.
  A printed line is given by the values formatted into it.
\<close>

datatype sample = Ms rat | Inf

datatype report_line = Stats pystr rat rat rat | TimeoutError pystr

fun valid_times :: "sample list \<Rightarrow> rat list" where
  "valid_times [] = []"
| "valid_times (Ms t # ts) = t # valid_times ts"
| "valid_times (Inf # ts) = valid_times ts"

definition print_line :: "pystr \<Rightarrow> sample list \<Rightarrow> report_line" where
  "print_line op samples =
     (case valid_times samples of
        [] \<Rightarrow> TimeoutError op
      | t # ts \<Rightarrow>
          Stats op (sum_list (t # ts) / of_nat (length (t # ts)))
            (fold min ts t) (fold max ts t))"

definition print_results :: "(pystr \<times> sample list) list \<Rightarrow> report_line list" where
  "print_results results = map (\<lambda>(op, samples). print_line op samples) results"

text \<open>The number of samples that failed.\<close>

definition failures :: "sample list \<Rightarrow> nat" where
  "failures samples = length (filter (\<lambda>s. s = Inf) samples)"

lemma valid_times_append: "valid_times (xs @ ys) = valid_times xs @ valid_times ys"
  by (induction xs rule: valid_times.induct) simp_all

lemma valid_times_Ms: "valid_times (map Ms ts) = ts"
  by (induction ts) simp_all

lemma valid_times_Inf: "valid_times (replicate n Inf) = []"
  by (induction n) simp_all

text \<open>
  C9, as stated, fails: one sample of 5 ms with no failure, and the same sample with one
  failure beside it, give the same line; the number of failures cannot be read from the
  report.
\<close>

theorem failure_count_counterexample:
  "print_results [(lit ''hover'', [Ms 5])] = print_results [(lit ''hover'', [Ms 5, Inf])] \<and>
   failures [Ms 5] \<noteq> failures [Ms 5, Inf]"
  by (simp add: print_results_def print_line_def failures_def)

text \<open>
  C9, amended. For each operation the samples that timed out are left out of the mean, the
  minimum and the maximum, and they are not counted: the line printed is that of the
  surviving samples alone, whatever the number of failures, and it is \<open>TIMEOUT/ERROR\<close>
  when every sample failed.
\<close>

theorem print_line_survivors:
  "print_line op (samples @ replicate n Inf) = print_line op samples \<and>
   print_line op samples = print_line op (map Ms (valid_times samples)) \<and>
   print_line op (replicate n Inf) = TimeoutError op"
  by (simp add: print_line_def valid_times_Ms valid_times_append valid_times_Inf)

end
